theory Spec2Isabelle
  imports Main "HOL-Library.Word"
begin

section \<open>The CPU LLM inference engine (llm\_inference\_engine\_cpu.cc)\<close>

text \<open>
  A shallow embedding of \<^verbatim>\<open>mediapipe/tasks/cc/genai/inference/c/llm_inference_engine_cpu.cc\<close>.

  \<^item> C++ \<^verbatim>\<open>int\<close> is a 32-bit word read as two's complement (\<open>sint\<close>, \<open><s\<close>),
    \<^verbatim>\<open>size_t\<close> an unsigned 64-bit word; the conversions between them are the modular ones.
  \<^item> A \<^verbatim>\<open>std::string\<close> is a \<open>string\<close>; its size is \<open>length\<close>.
  \<^item> Memory handed over the C boundary lives in an explicit heap of blocks.
  \<^item> \<^verbatim>\<open>ABSL_LOG(FATAL)\<close> aborts the process; the model returns \<open>Inl\<close> of the reason.
  \<^item> The worker thread is modelled by what it does from start to join; there is one worker
    per session, and no other thread touches the session while it runs.
\<close>

type_synonym int32 = "32 word"
type_synonym size_t = "64 word"

subsection \<open>Text\<close>

definition kCheckLastKChars :: nat where
  "kCheckLastKChars = 10"

definition npos :: size_t where
  "npos = - 1"

text \<open>
  \<^verbatim>\<open>std::string::find(str)\<close> of the C++ standard library: the lowest position at which
  \<open>t\<close> occurs in \<open>s\<close>, if there is one.
\<close>

fun find_pos :: "string \<Rightarrow> string \<Rightarrow> nat option" where
  "find_pos [] t = (if t = [] then Some 0 else None)"
| "find_pos (c # s) t =
     (if take (length t) (c # s) = t then Some 0 else map_option Suc (find_pos s t))"

definition string_find :: "string \<Rightarrow> string \<Rightarrow> size_t" where
  "string_find s t = (case find_pos s t of None \<Rightarrow> npos | Some i \<Rightarrow> of_nat i)"

text \<open>\<^verbatim>\<open>s.substr(pos, count)\<close> for \<open>pos \<le> size\<close>; \<^verbatim>\<open>s.substr(pos)\<close> has no count.\<close>

definition substr :: "string \<Rightarrow> nat \<Rightarrow> nat \<Rightarrow> string" where
  "substr s pos n = take n (drop pos s)"

definition substr_from :: "string \<Rightarrow> nat \<Rightarrow> string" where
  "substr_from s pos = drop pos s"

text \<open>\<^verbatim>\<open>s.c_str()\<close> read as a C string: the characters before the first NUL.\<close>

definition c_str :: "string \<Rightarrow> string" where
  "c_str s = takeWhile (\<lambda>c. c \<noteq> CHR 0x00) s"

text \<open>\<^verbatim>\<open>snprintf(buf, n, "%s", str)\<close>: at most \<open>n - 1\<close> characters of the C string.\<close>

definition snprintf_s :: "nat \<Rightarrow> string \<Rightarrow> string" where
  "snprintf_s n str = take (n - 1) (c_str str)"

subsection \<open>The heap\<close>

type_synonym addr = nat

datatype block = Chars string | Ptrs "addr option list"

record heap =
  cells :: "addr \<rightharpoonup> block"
  brk :: addr

text \<open>\<^verbatim>\<open>malloc\<close> is taken to succeed and to return a new address.\<close>

definition malloc :: "block \<Rightarrow> heap \<Rightarrow> addr \<times> heap" where
  "malloc b h = (brk h, h\<lparr>cells := (cells h)(brk h \<mapsto> b), brk := Suc (brk h)\<rparr>)"

definition store :: "addr \<Rightarrow> block \<Rightarrow> heap \<Rightarrow> heap" where
  "store a b h = h\<lparr>cells := (cells h)(a \<mapsto> b)\<rparr>"

text \<open>
  \<^verbatim>\<open>free(p)\<close>: nothing for a null pointer, the release of a live block, and undefined
  behaviour (\<open>None\<close>) for anything else.
\<close>

definition free :: "addr option \<Rightarrow> heap \<Rightarrow> heap option" where
  "free p h =
     (case p of
        None \<Rightarrow> Some h
      | Some a \<Rightarrow>
          (case cells h a of
             None \<Rightarrow> None
           | Some _ \<Rightarrow> Some (h\<lparr>cells := (cells h)(a := None)\<rparr>)))"

subsection \<open>The response context\<close>

text \<open>
  Modelled from the spec: the declaration of \<^verbatim>\<open>LlmResponseContext\<close>
  (llm\_inference\_engine.h) is not among the sources. The fields are the ones the code
  assigns; the spec describes them as an array of independently heap-owned text entries,
  a count and a done flag. The field \<^verbatim>\<open>done\<close> is called \<open>done_flag\<close> here.
\<close>

record LlmResponseContext =
  response_array :: "addr option"
  response_count :: nat
  done_flag :: bool

text \<open>\<^verbatim>\<open>response_context->response_array[i]\<close>; \<open>None\<close> is an invalid read.\<close>

definition read_entry :: "heap \<Rightarrow> addr option \<Rightarrow> nat \<Rightarrow> addr option option" where
  "read_entry h arr i =
     (case arr of
        None \<Rightarrow> None
      | Some a \<Rightarrow>
          (case cells h a of
             Some (Ptrs ps) \<Rightarrow> (if i < length ps then Some (ps ! i) else None)
           | _ \<Rightarrow> None))"

text \<open>The loop of lines 171--173, from index \<open>i\<close> up to \<open>response_count\<close>.\<close>

function free_entries :: "LlmResponseContext \<Rightarrow> nat \<Rightarrow> heap \<Rightarrow> heap option" where
  "free_entries ctx i h =
     (if i < LlmResponseContext.response_count ctx then
        (case read_entry h (response_array ctx) i of
           None \<Rightarrow> None
         | Some p \<Rightarrow>
             (case free p h of
                None \<Rightarrow> None
              | Some h' \<Rightarrow> free_entries ctx (Suc i) h'))
      else Some h)"
  by pat_completeness auto
termination
  by (relation "measure (\<lambda>(ctx, i, h). LlmResponseContext.response_count ctx - i)") auto

declare free_entries.simps [simp del]

definition LlmInferenceEngine_CloseResponseContext ::
    "LlmResponseContext \<Rightarrow> heap \<Rightarrow> (LlmResponseContext \<times> heap) option" where
  "LlmInferenceEngine_CloseResponseContext response_context h =
     (case free_entries response_context 0 h of
        None \<Rightarrow> None
      | Some h1 \<Rightarrow>
          (case free (response_array response_context) h1 of
             None \<Rightarrow> None
           | Some h2 \<Rightarrow>
               Some (response_context\<lparr>response_array := None, response_count := 0\<rparr>, h2)))"

text \<open>
  A buffer that owns its memory: the array at \<open>arr\<close> is live and holds the addresses \<open>ps\<close>
  of \<^verbatim>\<open>response_count\<close> live text entries, each allocated on its own.
\<close>

definition is_chars :: "block option \<Rightarrow> bool" where
  "is_chars b = (case b of Some (Chars s) \<Rightarrow> True | _ \<Rightarrow> False)"

definition owned_buffer :: "heap \<Rightarrow> LlmResponseContext \<Rightarrow> addr \<Rightarrow> addr list \<Rightarrow> bool" where
  "owned_buffer h ctx arr ps \<longleftrightarrow>
     response_array ctx = Some arr \<and>
     cells h arr = Some (Ptrs (map Some ps)) \<and>
     LlmResponseContext.response_count ctx = length ps \<and>
     distinct (arr # ps) \<and>
     (\<forall>p \<in> set ps. is_chars (cells h p))"

text \<open>What a reader of the context finds: the text of each of its entries.\<close>

definition entry_text :: "heap \<Rightarrow> addr option \<Rightarrow> nat \<Rightarrow> string option" where
  "entry_text h arr i =
     (case read_entry h arr i of
        Some (Some p) \<Rightarrow> (case cells h p of Some (Chars s) \<Rightarrow> Some s | _ \<Rightarrow> None)
      | _ \<Rightarrow> None)"

definition context_texts :: "heap \<Rightarrow> LlmResponseContext \<Rightarrow> string option list" where
  "context_texts h ctx =
     map (entry_text h (response_array ctx)) [0 ..< LlmResponseContext.response_count ctx]"

subsection \<open>Engine and session\<close>

text \<open>
  The collaborators of the engine are parameters. \<open>'l\<close> is the state of the model backend
  (\<^verbatim>\<open>xnn_utils::Llm\<close>). A failed \<^verbatim>\<open>absl::Status\<close> is \<open>Inl\<close> of its \<^verbatim>\<open>ToString()\<close>.
  \<open>normalizer = None\<close> is the null pointer.
\<close>

record 'l LlmInferenceEngineCpu_Engine =
  tokenizer_Encode :: "string \<Rightarrow> string + int32 list"
  tokenizer_IdToPiece :: "int32 \<Rightarrow> string"
  normalizer :: "(string \<Rightarrow> string) option"
  llm_InitInputTokens :: "int32 list \<Rightarrow> 'l \<Rightarrow> string + 'l"
  llm_GetNextToken :: "'l \<Rightarrow> string + (int32 list \<times> 'l)"
  start_token_id :: int32
  stop_tokens :: "string list"
  max_num_tokens :: size_t

record LlmInferenceEngineCpu_Session =
  prompt :: string
  max_num_output_tokens :: int32
  response_count :: int32
  last_10_char :: string
  final_output :: string
  early_stop :: bool

text \<open>
  What lies outside the session: the backend's state, the number of \<^verbatim>\<open>GetNextToken\<close>
  requests made so far, the heap, and the state \<open>'u\<close> behind the caller's
  \<^verbatim>\<open>callback_context\<close>.
\<close>

record ('l, 'u) host =
  llm :: 'l
  requests :: nat
  mem :: heap
  user :: 'u

datatype fatal =
    EncodeFailed string
  | InitFailed string
  | GenerateFailed string
  | EmptyTokenVector

text \<open>
  The caller's callback reads the context it is given, in the heap as it is then, and
  updates the state behind \<^verbatim>\<open>callback_context\<close>.
\<close>

type_synonym 'u callback = "LlmResponseContext \<Rightarrow> heap \<Rightarrow> 'u \<Rightarrow> 'u"

text \<open>
  A callback that keeps a log of what it was given: the texts of the entries and the done
  flag of each context, in delivery order.
\<close>

type_synonym delivery = "string option list \<times> bool"

definition record_callback :: "delivery list callback" where
  "record_callback response_context h deliveries =
     deliveries @ [(context_texts h response_context, done_flag response_context)]"

text \<open>The closure installed at lines 241--258, called with the session as it is then.\<close>

definition cpu_callback ::
    "'u callback \<Rightarrow> string \<Rightarrow> LlmInferenceEngineCpu_Session \<Rightarrow> ('l, 'u) host \<Rightarrow> ('l, 'u) host" where
  "cpu_callback callback responses cpu_session w =
     (let (result, h1) = malloc (Ptrs [None]) (mem w);
          (r0, h2) = malloc (Chars []) h1;
          h3 = store result (Ptrs [Some r0]) h2;
          h4 = store r0 (Chars (snprintf_s (length responses + 1) responses)) h3;
          response_context =
            \<lparr>response_array = Some result, response_count = 1,
             done_flag = early_stop cpu_session\<rparr>
      in w\<lparr>mem := h4, user := callback response_context h4 (user w)\<rparr>)"

text \<open>The stop-token loop of lines 111--120.\<close>

fun stop_token_loop ::
    "string list \<Rightarrow> LlmInferenceEngineCpu_Session \<Rightarrow> LlmInferenceEngineCpu_Session" where
  "stop_token_loop [] cpu_session = cpu_session"
| "stop_token_loop (stop_token # rest) cpu_session =
     (let stop_index = (ucast (string_find (last_10_char cpu_session) stop_token) :: int32)
      in if (scast stop_index :: size_t) \<noteq> npos then
           cpu_session\<lparr>early_stop := True,
             last_10_char :=
               substr (last_10_char cpu_session) 0 (unat (scast stop_index :: size_t))\<rparr>
         else stop_token_loop rest cpu_session)"

text \<open>Lines 122--131: the ready text and the session after the flush.\<close>

definition flush ::
    "LlmInferenceEngineCpu_Session \<Rightarrow> string \<times> LlmInferenceEngineCpu_Session" where
  "flush cpu_session =
     (let (ready_char, cpu_session) =
        (if early_stop cpu_session then (last_10_char cpu_session, cpu_session)
         else if length (last_10_char cpu_session) > kCheckLastKChars then
           (substr (last_10_char cpu_session) 0
              (length (last_10_char cpu_session) - kCheckLastKChars),
            cpu_session\<lparr>last_10_char :=
              substr_from (last_10_char cpu_session)
                (length (last_10_char cpu_session) - kCheckLastKChars)\<rparr>)
         else ([], cpu_session))
      in (ready_char, cpu_session\<lparr>final_output := final_output cpu_session @ ready_char\<rparr>))"

text \<open>Lines 104--108: the text of a token id, normalised when there is a normalizer.\<close>

definition token_piece :: "'l LlmInferenceEngineCpu_Engine \<Rightarrow> int32 \<Rightarrow> string" where
  "token_piece engine id0 =
     (let token = tokenizer_IdToPiece engine id0
      in case normalizer engine of None \<Rightarrow> token | Some f \<Rightarrow> f token)"

text \<open>
  Lines 100--131 of \<^verbatim>\<open>next_token_function\<close>, for the token ids the backend returned:
  the ceiling check, the piece of the first id, the stop tokens and the flush.
  \<^verbatim>\<open>token_ids_per_step[0]\<close> of an empty vector is undefined behaviour, a fatal result here.
\<close>

definition decode_step ::
    "'l LlmInferenceEngineCpu_Engine \<Rightarrow> int32 list \<Rightarrow> LlmInferenceEngineCpu_Session \<Rightarrow>
     fatal + (string \<times> LlmInferenceEngineCpu_Session)" where
  "decode_step engine token_ids_per_step cpu_session =
     (let cpu_session =
            (if response_count cpu_session = max_num_output_tokens cpu_session
             then cpu_session\<lparr>early_stop := True\<rparr> else cpu_session)
      in case token_ids_per_step of
           [] \<Rightarrow> Inl EmptyTokenVector
         | id0 # _ \<Rightarrow>
             (let token = token_piece engine id0;
                  cpu_session =
                    cpu_session\<lparr>last_10_char := last_10_char cpu_session @ token\<rparr>;
                  cpu_session = stop_token_loop (stop_tokens engine) cpu_session
              in Inr (flush cpu_session)))"

lemma stop_token_loop_response_count [simp]:
  "response_count (stop_token_loop ts s) = response_count s"
  by (induction ts) (simp_all add: Let_def)

lemma stop_token_loop_max [simp]:
  "max_num_output_tokens (stop_token_loop ts s) = max_num_output_tokens s"
  by (induction ts) (simp_all add: Let_def)

lemma flush_response_count:
  "flush s = (r, s') \<Longrightarrow> response_count s' = response_count s"
  by (auto simp: flush_def Let_def split: if_splits)

lemma flush_max:
  "flush s = (r, s') \<Longrightarrow> max_num_output_tokens s' = max_num_output_tokens s"
  by (auto simp: flush_def Let_def split: if_splits)

lemma decode_step_response_count:
  "decode_step e ids s = Inr (r, s') \<Longrightarrow> response_count s' = response_count s"
  by (auto simp: decode_step_def Let_def split: list.splits dest!: flush_response_count)

lemma decode_step_max:
  "decode_step e ids s = Inr (r, s') \<Longrightarrow> max_num_output_tokens s' = max_num_output_tokens s"
  by (auto simp: decode_step_def Let_def split: list.splits dest!: flush_max)

lemma sint_succ_of_sless:
  fixes a b :: int32
  assumes "a <s b"
  shows "sint (a + 1) = sint a + 1"
proof -
  have "sint a < sint b" using assms by (simp add: word_sless_alt)
  moreover have "sint b < 2 ^ 31" using sint_lt [of b] by simp
  moreover have "- (2 ^ 31) \<le> sint a" using sint_ge [of a] by simp
  ultimately have "- (2 ^ 31) \<le> sint a + 1" "sint a + 1 < 2 ^ 31" by linarith+
  then show ?thesis
    by (simp add: sint_word_ariths signed_take_bit_int_eq_self)
qed

text \<open>
  \<^verbatim>\<open>next_token_function\<close>, lines 81--138. The second test of \<^verbatim>\<open>early_stop\<close> (line 96)
  reads the flag the first test read: nothing in between writes it.
\<close>

function next_token_function ::
    "'l LlmInferenceEngineCpu_Engine \<Rightarrow> 'u callback \<Rightarrow>
     LlmInferenceEngineCpu_Session \<times> ('l, 'u) host \<Rightarrow>
     fatal + (LlmInferenceEngineCpu_Session \<times> ('l, 'u) host)" where
  "next_token_function engine callback (cpu_session, w) =
     (if response_count cpu_session <s max_num_output_tokens cpu_session then
        (if early_stop cpu_session then
           Inr (cpu_session\<lparr>response_count := response_count cpu_session + 1\<rparr>, w)
         else
           (case llm_GetNextToken engine (llm w) of
              Inl status \<Rightarrow> Inl (GenerateFailed status)
            | Inr (token_ids_per_step, l') \<Rightarrow>
                (case decode_step engine token_ids_per_step
                        (cpu_session\<lparr>response_count := response_count cpu_session + 1\<rparr>) of
                   Inl e \<Rightarrow> Inl e
                 | Inr (ready_char, cpu_session') \<Rightarrow>
                     next_token_function engine callback
                       (cpu_session',
                        cpu_callback callback ready_char cpu_session'
                          (w\<lparr>llm := l', requests := Suc (requests w)\<rparr>)))))
      else Inr (cpu_session\<lparr>response_count := response_count cpu_session + 1\<rparr>, w))"
  by pat_completeness auto
termination
proof (relation "measure (\<lambda>(engine, callback, cpu_session, w).
         nat (sint (max_num_output_tokens cpu_session) - sint (response_count cpu_session)))",
       goal_cases)
  case 1
  show ?case by simp
next
  case (2 engine callback cpu_session w x2 token_ids_per_step l' x2a ready_char cpu_session')
  have less: "response_count cpu_session <s max_num_output_tokens cpu_session"
    using 2 by simp
  have step: "decode_step engine token_ids_per_step
      (cpu_session\<lparr>response_count := response_count cpu_session + 1\<rparr>) =
      Inr (ready_char, cpu_session')"
    using 2 by simp
  have rc: "response_count cpu_session' = response_count cpu_session + 1"
    using decode_step_response_count [OF step] by simp
  have mx: "max_num_output_tokens cpu_session' = max_num_output_tokens cpu_session"
    using decode_step_max [OF step] by simp
  have "sint (response_count cpu_session + 1) = sint (response_count cpu_session) + 1"
    using less by (rule sint_succ_of_sless)
  moreover have "sint (response_count cpu_session) < sint (max_num_output_tokens cpu_session)"
    using less by (simp add: word_sless_alt)
  ultimately show ?case by (simp add: rc mx)
qed

declare next_token_function.simps [simp del]

text \<open>\<^verbatim>\<open>start_llm_function\<close>, lines 140--165.\<close>

definition start_llm_function ::
    "'l LlmInferenceEngineCpu_Engine \<Rightarrow> 'u callback \<Rightarrow>
     LlmInferenceEngineCpu_Session \<times> ('l, 'u) host \<Rightarrow>
     fatal + (LlmInferenceEngineCpu_Session \<times> ('l, 'u) host)" where
  "start_llm_function engine callback sw =
     (case sw of (cpu_session, w) \<Rightarrow>
        (case tokenizer_Encode engine (prompt cpu_session) of
           Inl status \<Rightarrow> Inl (EncodeFailed status)
         | Inr ids \<Rightarrow>
             (let prompt_ids = start_token_id engine # ids
              in case llm_InitInputTokens engine prompt_ids (llm w) of
                   Inl status \<Rightarrow> Inl (InitFailed status)
                 | Inr l' \<Rightarrow>
                     next_token_function engine callback
                       (cpu_session\<lparr>max_num_output_tokens :=
                          ucast (max_num_tokens engine - of_nat (length prompt_ids))\<rparr>,
                        w\<lparr>llm := l'\<rparr>))))"

text \<open>Lines 260--263: the fields a new request resets.\<close>

definition reset_request ::
    "string \<Rightarrow> LlmInferenceEngineCpu_Session \<Rightarrow> LlmInferenceEngineCpu_Session" where
  "reset_request input cpu_session =
     cpu_session\<lparr>prompt := input, final_output := [], last_10_char := [],
       early_stop := False\<rparr>"

text \<open>
  \<^verbatim>\<open>LlmInferenceEngine_Session_PredictAsync\<close>, lines 234--269: the result is the state
  when the worker it started has returned.
\<close>

definition LlmInferenceEngine_Session_PredictAsync ::
    "'l LlmInferenceEngineCpu_Engine \<Rightarrow> 'u callback \<Rightarrow> string \<Rightarrow>
     LlmInferenceEngineCpu_Session \<times> ('l, 'u) host \<Rightarrow>
     fatal + (LlmInferenceEngineCpu_Session \<times> ('l, 'u) host)" where
  "LlmInferenceEngine_Session_PredictAsync engine callback input sw =
     start_llm_function engine callback (reset_request input (fst sw), snd sw)"

text \<open>
  \<^verbatim>\<open>LlmInferenceEngine_Session_PredictSync\<close>, lines 202--232, with the callback that does
  nothing.
\<close>

definition LlmInferenceEngine_Session_PredictSync ::
    "'l LlmInferenceEngineCpu_Engine \<Rightarrow> string \<Rightarrow>
     LlmInferenceEngineCpu_Session \<times> ('l, 'u) host \<Rightarrow>
     fatal + (LlmResponseContext \<times> LlmInferenceEngineCpu_Session \<times> ('l, 'u) host)" where
  "LlmInferenceEngine_Session_PredictSync engine input sw =
     (case LlmInferenceEngine_Session_PredictAsync engine (\<lambda>response_context h u. u) input sw of
        Inl e \<Rightarrow> Inl e
      | Inr (cpu_session, w) \<Rightarrow>
          (let final_output = final_output cpu_session;
               (result, h1) = malloc (Ptrs [None]) (mem w);
               (r0, h2) = malloc (Chars []) h1;
               h3 = store result (Ptrs [Some r0]) h2;
               h4 = store r0 (Chars (snprintf_s (length final_output + 1) final_output)) h3;
               response_context =
                 \<lparr>response_array = Some result, response_count = 1, done_flag = True\<rparr>
           in Inr (response_context, cpu_session, w\<lparr>mem := h4\<rparr>)))"

text \<open>
  \<^verbatim>\<open>LlmInferenceEngine_Session_SizeInTokens\<close>, lines 271--282: the returned \<^verbatim>\<open>int\<close> and
  what is written to \<^verbatim>\<open>*error_msg\<close>, if anything.
\<close>

definition LlmInferenceEngine_Session_SizeInTokens ::
    "'l LlmInferenceEngineCpu_Engine \<Rightarrow> string \<Rightarrow> int32 \<times> string option" where
  "LlmInferenceEngine_Session_SizeInTokens engine input =
     (case tokenizer_Encode engine input of
        Inl status \<Rightarrow> (- 1, Some (c_str status))
      | Inr output_ids \<Rightarrow> (ucast (of_nat (length output_ids) :: size_t), None))"

subsection \<open>Occurrences of a stop sequence\<close>

text \<open>\<open>t\<close> occurs in \<open>s\<close> at position \<open>i\<close>; \<open>t\<close> occurs in \<open>s\<close> somewhere.\<close>

definition occurs_at :: "string \<Rightarrow> string \<Rightarrow> nat \<Rightarrow> bool" where
  "occurs_at t s i \<longleftrightarrow> i + length t \<le> length s \<and> take (length t) (drop i s) = t"

definition occurs :: "string \<Rightarrow> string \<Rightarrow> bool" where
  "occurs t s \<longleftrightarrow> (\<exists>i \<le> length s. occurs_at t s i)"

text \<open>
  The matcher in the words of the spec (section 4.4): the earliest-occurring match among
  all configured sequences, by lowest starting index, ties broken by the order the
  sequences were configured; the truncation point is the match's starting index.
\<close>

fun earliest_match :: "string list \<Rightarrow> string \<Rightarrow> (nat \<times> string) option" where
  "earliest_match [] buf = None"
| "earliest_match (t # ts) buf =
     (case (find_pos buf t, earliest_match ts buf) of
        (None, r) \<Rightarrow> r
      | (Some i, None) \<Rightarrow> Some (i, t)
      | (Some i, Some (j, u)) \<Rightarrow> (if i \<le> j then Some (i, t) else Some (j, u)))"

definition truncate_at_earliest_match :: "string list \<Rightarrow> string \<Rightarrow> string" where
  "truncate_at_earliest_match ts buf =
     (case earliest_match ts buf of None \<Rightarrow> buf | Some (i, t) \<Rightarrow> take i buf)"

subsection \<open>Collaborators that do not fail\<close>

text \<open>
  The backend answers the next \<open>n\<close> requests, from state \<open>l\<close>, each with at least one
  token id.
\<close>

fun backend_ok :: "'l LlmInferenceEngineCpu_Engine \<Rightarrow> 'l \<Rightarrow> nat \<Rightarrow> bool" where
  "backend_ok engine l 0 = True"
| "backend_ok engine l (Suc n) =
     (case llm_GetNextToken engine l of
        Inl status \<Rightarrow> False
      | Inr (ids, l') \<Rightarrow> ids \<noteq> [] \<and> backend_ok engine l' n)"

text \<open>
  The pieces of the first token ids with which the backend answers the next \<open>n\<close> requests,
  from state \<open>l\<close>: the text that a generation of \<open>n\<close> steps appends to the trailing buffer.
\<close>

fun backend_pieces :: "'l LlmInferenceEngineCpu_Engine \<Rightarrow> 'l \<Rightarrow> nat \<Rightarrow> string list" where
  "backend_pieces engine l 0 = []"
| "backend_pieces engine l (Suc n) =
     (case llm_GetNextToken engine l of
        Inl status \<Rightarrow> []
      | Inr (ids, l') \<Rightarrow>
          (case ids of
             [] \<Rightarrow> []
           | id0 # _ \<Rightarrow> token_piece engine id0 # backend_pieces engine l' n))"

text \<open>The backend answers every request, in every state, with at least one token id.\<close>

definition backend_reliable :: "'l LlmInferenceEngineCpu_Engine \<Rightarrow> bool" where
  "backend_reliable engine \<longleftrightarrow>
     (\<forall>l. case llm_GetNextToken engine l of Inl status \<Rightarrow> False | Inr (ids, l') \<Rightarrow> ids \<noteq> [])"

text \<open>No piece of the vocabulary holds a NUL character: every piece is a C string.\<close>

definition nul_free :: "string \<Rightarrow> bool" where
  "nul_free s \<longleftrightarrow> CHR 0x00 \<notin> set s"

definition pieces_nul_free :: "'l LlmInferenceEngineCpu_Engine \<Rightarrow> bool" where
  "pieces_nul_free engine \<longleftrightarrow> (\<forall>id0. nul_free (token_piece engine id0))"

text \<open>What a run leaves of the session and of the backend, whatever the host's other state.\<close>

definition session_and_llm ::
    "fatal + (LlmInferenceEngineCpu_Session \<times> ('l, 'u) host) \<Rightarrow>
     fatal + (LlmInferenceEngineCpu_Session \<times> 'l)" where
  "session_and_llm r = map_sum id (\<lambda>(s, w). (s, llm w)) r"

subsection \<open>Example inputs\<close>

text \<open>
  A scripted backend: its state is the position in a script of five token ids, whose pieces
  spell \<open>Hi</s>extra\<close> and which starts over at its end; initialising the backend rewinds
  the script. The tokenizer encodes a non-empty text with one id per character. A host that
  has not run a request yet has its backend at position 99.
\<close>

definition demo_piece :: "int32 \<Rightarrow> string" where
  "demo_piece i =
     (if i = 0 then ''Hi'' else if i = 1 then ''</'' else if i = 2 then ''s>''
      else if i = 3 then ''ext'' else ''ra'')"

definition demo_engine :: "string list \<Rightarrow> size_t \<Rightarrow> nat LlmInferenceEngineCpu_Engine" where
  "demo_engine stops budget =
     \<lparr>tokenizer_Encode =
        (\<lambda>text. if text = [] then Inl ''INVALID_ARGUMENT: empty input''
                else Inr (map (\<lambda>c. of_nat (of_char c)) text)),
      tokenizer_IdToPiece = demo_piece,
      normalizer = None,
      llm_InitInputTokens = (\<lambda>ids l. Inr 0),
      llm_GetNextToken = (\<lambda>l. Inr ([of_nat (l mod 5)], Suc l)),
      start_token_id = 1,
      stop_tokens = stops,
      max_num_tokens = budget\<rparr>"

definition fresh_session :: LlmInferenceEngineCpu_Session where
  "fresh_session =
     \<lparr>prompt = [], max_num_output_tokens = 0, response_count = 0, last_10_char = [],
      final_output = [], early_stop = False\<rparr>"

definition fresh_host :: "'u \<Rightarrow> (nat, 'u) host" where
  "fresh_host u = \<lparr>llm = 99, requests = 0, mem = \<lparr>cells = Map.empty, brk = 0\<rparr>, user = u\<rparr>"

section \<open>Conversions between \<^verbatim>\<open>size_t\<close> and \<^verbatim>\<open>int\<close>\<close>

lemma int_less_31:
  assumes "n < 2 ^ 31"
  shows "int n < 2 ^ 31"
  using assms by simp

lemma uint_of_nat_size:
  assumes "n < 2 ^ 31"
  shows "uint (of_nat n :: size_t) = int n"
proof -
  have "int n < 2 ^ 31" using assms by (rule int_less_31)
  then have "int n < 2 ^ 64" by simp
  moreover have "uint (of_nat n :: size_t) = take_bit 64 (int n)"
    by (simp add: unsigned_of_nat flip: take_bit_of_nat)
  ultimately show ?thesis by (simp add: take_bit_int_eq_self)
qed

lemma ceiling_value:
  fixes B :: size_t
  assumes "uint B < 2 ^ 31" and "n < 2 ^ 31"
  shows "sint (ucast (B - of_nat n) :: int32) = uint B - int n"
proof -
  have n: "int n < 2 ^ 31" using assms(2) by (rule int_less_31)
  have "uint (B - of_nat n) = take_bit 64 (uint B - int n)"
    by (simp add: uint_word_ariths take_bit_eq_mod uint_of_nat_size [OF assms(2)])
  then have "sint (ucast (B - of_nat n) :: int32) = signed_take_bit 31 (uint B - int n)"
    by (simp add: signed_ucast_eq signed_take_bit_take_bit)
  moreover have "0 \<le> uint B" by simp
  then have "- (2 ^ 31) \<le> uint B - int n" "uint B - int n < 2 ^ 31"
    using assms(1) n by linarith+
  ultimately show ?thesis
    by (simp add: signed_take_bit_int_eq_self)
qed

lemma ceiling_non_positive:
  assumes "unat (B :: size_t) < 2 ^ 31" and "n < 2 ^ 31" and "unat B \<le> n"
  shows "sint (ucast (B - of_nat n) :: int32) \<le> 0"
proof -
  have "uint B < 2 ^ 31" using int_less_31 [OF assms(1)] by simp
  then have "sint (ucast (B - of_nat n) :: int32) = uint B - int n"
    using assms(2) by (rule ceiling_value)
  moreover have "uint B = int (unat B)" by (rule uint_nat)
  moreover have "int (unat B) \<le> int n" using assms(3) by (rule of_nat_mono)
  ultimately show ?thesis by linarith
qed

lemma sint_ucast_of_nat:
  assumes "n < 2 ^ 31"
  shows "sint (ucast (of_nat n :: size_t) :: int32) = int n"
proof -
  have "sint (ucast (of_nat n - of_nat 0 :: size_t) :: int32) =
      uint (of_nat n :: size_t) - int 0"
  proof (rule ceiling_value)
    show "uint (of_nat n :: size_t) < 2 ^ 31"
      using int_less_31 [OF assms] by (simp only: uint_of_nat_size [OF assms])
  qed simp
  then show ?thesis by (simp add: uint_of_nat_size [OF assms])
qed

lemma ceiling_of_difference:
  assumes "n < unat (B :: size_t)" and "unat B - n < 2 ^ 31"
  shows "sint (ucast (B - of_nat n) :: int32) = int (unat B - n)"
proof -
  have "(of_nat (unat B - n) :: size_t) = of_nat (unat B) - of_nat n"
    using assms(1) by (simp add: of_nat_diff)
  then have "B - of_nat n = (of_nat (unat B - n) :: size_t)" by simp
  then show ?thesis by (simp only: sint_ucast_of_nat [OF assms(2)])
qed

lemma int32_of_sint:
  fixes x :: int32
  assumes "sint x = k"
  shows "x = word_of_int k"
proof -
  have "x = word_of_int (sint x)" by simp
  with assms show ?thesis by simp
qed

lemma sint_eq_iff: "(a :: int32) = b \<longleftrightarrow> sint a = sint b"
  by (auto simp: signed_word_eqI)

lemma ucast_npos: "(ucast npos :: int32) = - 1"
  unfolding npos_def by (rule bit_word_eqI) (simp add: bit_simps)

lemma npos_roundtrip: "(scast (ucast npos :: int32) :: size_t) = npos"
  by (simp add: ucast_npos) (simp add: npos_def)

lemma npos_roundtrip_value: "(scast (ucast (- 1 :: size_t) :: int32) :: size_t) = - 1"
  using npos_roundtrip by (simp add: npos_def)

lemma index_roundtrip:
  assumes "i < 2 ^ 31"
  shows "(scast (ucast (of_nat i :: size_t) :: int32) :: size_t) = of_nat i"
proof -
  have "sint (ucast (of_nat i - of_nat 0 :: size_t) :: int32) = uint (of_nat i :: size_t) - int 0"
  proof (rule ceiling_value)
    show "uint (of_nat i :: size_t) < 2 ^ 31"
      using int_less_31 [OF assms] by (simp only: uint_of_nat_size [OF assms])
  qed simp
  then have "sint (ucast (of_nat i :: size_t) :: int32) = int i"
    by (simp add: uint_of_nat_size [OF assms])
  then show ?thesis by (simp add: scast_eq)
qed

lemma unat_index:
  assumes "i < 2 ^ 31"
  shows "unat (of_nat i :: size_t) = i"
  using uint_of_nat_size [OF assms] by (simp add: unat_eq_nat_uint)

lemma index_not_npos: 
  assumes "i < 2 ^ 31" shows "(of_nat i :: size_t) \<noteq> npos"
proof
  assume "(of_nat i :: size_t) = npos"
  then have "uint (of_nat i :: size_t) = uint npos" by simp
  then have "int i = 2 ^ 64 - 1" by (simp add: uint_of_nat_size [OF assms] npos_def unsigned_minus_1_eq_mask mask_eq_exp_minus_1)
  moreover have "int i < 2 ^ 31" using assms by (rule int_less_31)
  ultimately show False by simp
qed

section \<open>Text\<close>

subsection \<open>Finding a stop sequence\<close>

lemma occurs_at_0: "occurs_at t s 0 \<longleftrightarrow> take (length t) s = t"
proof
  assume "occurs_at t s 0"
  then show "take (length t) s = t" by (simp add: occurs_at_def)
next
  assume eq: "take (length t) s = t"
  have "length (take (length t) s) \<le> length s" by simp
  with eq have "length t \<le> length s" by simp
  with eq show "occurs_at t s 0" by (simp add: occurs_at_def)
qed

lemma occurs_at_Suc: "occurs_at t (c # s) (Suc i) \<longleftrightarrow> occurs_at t s i"
  by (simp add: occurs_at_def)

lemma occurs_at_Nil: "occurs_at t [] i \<longleftrightarrow> t = [] \<and> i = 0"
  by (auto simp: occurs_at_def)

lemma find_pos_Some:
  "find_pos s t = Some i \<Longrightarrow> occurs_at t s i \<and> (\<forall>j < i. \<not> occurs_at t s j)"
proof (induction s arbitrary: i)
  case Nil
  then show ?case by (simp add: occurs_at_Nil split: if_splits)
next
  case (Cons c s)
  show ?case
  proof (cases "take (length t) (c # s) = t")
    case True
    with Cons.prems show ?thesis by (simp add: occurs_at_0)
  next
    case False
    with Cons.prems obtain k where k: "find_pos s t = Some k" "i = Suc k" by auto
    from Cons.IH [OF k(1)] have ih: "occurs_at t s k" "\<forall>j < k. \<not> occurs_at t s j" by simp_all
    have "\<not> occurs_at t (c # s) j" if "j < i" for j
    proof (cases j)
      case 0
      with False show ?thesis by (simp add: occurs_at_0)
    next
      case (Suc j')
      with that k(2) ih(2) show ?thesis by (simp add: occurs_at_Suc)
    qed
    with ih(1) k(2) show ?thesis by (simp add: occurs_at_Suc)
  qed
qed

lemma find_pos_None: "find_pos s t = None \<Longrightarrow> \<not> occurs_at t s j"
proof (induction s arbitrary: j)
  case Nil
  then show ?case by (simp add: occurs_at_Nil split: if_splits)
next
  case (Cons c s)
  from Cons.prems have no: "take (length t) (c # s) \<noteq> t" and rest: "find_pos s t = None"
    by (auto split: if_splits)
  show ?case
  proof (cases j)
    case 0
    with no show ?thesis by (simp add: occurs_at_0)
  next
    case (Suc j')
    with Cons.IH [OF rest] show ?thesis by (simp add: occurs_at_Suc)
  qed
qed

lemma occurs_at_le: "occurs_at t s i \<Longrightarrow> i \<le> length s"
  by (simp add: occurs_at_def)

lemma find_pos_None_iff: "find_pos s t = None \<longleftrightarrow> \<not> occurs t s"
proof
  assume "find_pos s t = None"
  then show "\<not> occurs t s" by (auto simp: occurs_def dest: find_pos_None)
next
  assume no: "\<not> occurs t s"
  show "find_pos s t = None"
  proof (cases "find_pos s t")
    case (Some i)
    then have "occurs_at t s i" by (simp add: find_pos_Some)
    with no show ?thesis by (auto simp: occurs_def dest: occurs_at_le)
  qed simp
qed

lemma find_pos_least:
  assumes "occurs_at t s i" and "\<forall>j < i. \<not> occurs_at t s j"
  shows "find_pos s t = Some i"
proof (cases "find_pos s t")
  case None
  with assms(1) show ?thesis by (auto dest: find_pos_None)
next
  case (Some k)
  from find_pos_Some [OF Some] have k: "occurs_at t s k" "\<forall>j < k. \<not> occurs_at t s j" by simp_all
  have "k = i" using assms k by (meson linorder_neqE_nat)
  with Some show ?thesis by simp
qed

subsection \<open>The stop-token loop\<close>

text \<open>One test of the loop, then the loop.\<close>

lemma stop_test_found:
  assumes "find_pos buf t = Some i" and "length buf < 2 ^ 31"
  shows "(scast (ucast (string_find buf t) :: int32) :: size_t) \<noteq> npos"
    and "unat (scast (ucast (string_find buf t) :: int32) :: size_t) = i"
proof -
  have "occurs_at t buf i" using find_pos_Some [OF assms(1)] by simp
  then have "i \<le> length buf" by (rule occurs_at_le)
  with assms(2) have i: "i < 2 ^ 31" by simp
  show "(scast (ucast (string_find buf t) :: int32) :: size_t) \<noteq> npos"
    using assms(1) by (simp add: string_find_def index_roundtrip [OF i] index_not_npos [OF i])
  show "unat (scast (ucast (string_find buf t) :: int32) :: size_t) = i"
    using assms(1) by (simp add: string_find_def index_roundtrip [OF i] unat_index [OF i])
qed

lemma stop_test_missing:
  assumes "find_pos buf t = None"
  shows "(scast (ucast (string_find buf t) :: int32) :: size_t) = npos"
  using assms by (simp add: string_find_def npos_roundtrip)

lemma stop_token_loop_none:
  assumes "\<forall>t \<in> set ts. \<not> occurs t (last_10_char s)"
  shows "stop_token_loop ts s = s"
  using assms by (induction ts) (simp_all add: Let_def stop_test_missing find_pos_None_iff)

lemma stop_token_loop_first:
  assumes "k < length ts"
    and "\<forall>k' < k. \<not> occurs (ts ! k') (last_10_char s)"
    and "occurs_at (ts ! k) (last_10_char s) i"
    and "\<forall>j < i. \<not> occurs_at (ts ! k) (last_10_char s) j"
    and "length (last_10_char s) < 2 ^ 31"
  shows "stop_token_loop ts s = s\<lparr>early_stop := True, last_10_char := take i (last_10_char s)\<rparr>"
  using assms(1-4)
proof (induction ts arbitrary: k)
  case Nil
  then show ?case by simp
next
  case (Cons t ts)
  show ?case
  proof (cases k)
    case 0
    with Cons.prems have "find_pos (last_10_char s) t = Some i"
      by (simp add: find_pos_least)
    then show ?thesis
      by (simp add: Let_def stop_test_found [OF _ assms(5)] substr_def)
  next
    case (Suc k')
    with Cons.prems have "\<not> occurs t (last_10_char s)" by auto
    then have miss: "find_pos (last_10_char s) t = None" by (simp add: find_pos_None_iff)
    have "stop_token_loop ts s = s\<lparr>early_stop := True, last_10_char := take i (last_10_char s)\<rparr>"
    proof (rule Cons.IH [of k'])
      show "k' < length ts" using Cons.prems(1) Suc by simp
      show "\<forall>k''<k'. \<not> occurs (ts ! k'') (last_10_char s)"
        using Cons.prems(2) Suc by auto
      show "occurs_at (ts ! k') (last_10_char s) i" using Cons.prems(3) Suc by simp
      show "\<forall>j<i. \<not> occurs_at (ts ! k') (last_10_char s) j" using Cons.prems(4) Suc by simp
    qed
    then show ?thesis by (simp add: Let_def stop_test_missing [OF miss])
  qed
qed

lemma stop_token_loop_final_output [simp]:
  "final_output (stop_token_loop ts s) = final_output s"
  by (induction ts) (simp_all add: Let_def)

lemma stop_token_loop_prefix:
  "\<exists>n. last_10_char (stop_token_loop ts s) = take n (last_10_char s)"
proof (induction ts)
  case Nil
  have "last_10_char s = take (length (last_10_char s)) (last_10_char s)" by simp
  then show ?case by (simp del: take_all_iff take_all) blast
next
  case (Cons t ts)
  then show ?case by (auto simp: Let_def substr_def)
qed

subsection \<open>C strings\<close>

lemma length_c_str: "length (c_str r) \<le> length r"
  by (simp add: c_str_def length_takeWhile_le)

lemma snprintf_s_whole [simp]: "snprintf_s (Suc (length r)) r = c_str r"
  by (simp add: snprintf_s_def length_c_str)

lemma c_str_nul_free: "nul_free r \<Longrightarrow> c_str r = r"
  by (auto simp: c_str_def nul_free_def)

lemma nul_free_take: "nul_free xs \<Longrightarrow> nul_free (take n xs)"
  by (auto simp: nul_free_def dest: in_set_takeD)

lemma nul_free_drop: "nul_free xs \<Longrightarrow> nul_free (drop n xs)"
  by (auto simp: nul_free_def dest: in_set_dropD)

lemma nul_free_append [simp]: "nul_free (xs @ ys) \<longleftrightarrow> nul_free xs \<and> nul_free ys"
  by (auto simp: nul_free_def)

lemma nul_free_Nil [simp]: "nul_free []"
  by (simp add: nul_free_def)

lemma nul_free_concat: "(\<forall>c \<in> set cs. nul_free c) \<Longrightarrow> nul_free (concat cs)"
  by (induction cs) simp_all

lemma stop_token_loop_nul_free:
  "nul_free (last_10_char s) \<Longrightarrow> nul_free (last_10_char (stop_token_loop ts s))"
  using stop_token_loop_prefix [of ts s] by (auto simp: nul_free_take)

subsection \<open>The flush and the decode step\<close>

lemma flush_text:
  assumes "flush s = (ready, s1)"
  shows "final_output s1 = final_output s @ ready"
    and "nul_free (last_10_char s) \<Longrightarrow> nul_free ready \<and> nul_free (last_10_char s1)"
  using assms
  by (auto simp: flush_def Let_def substr_def substr_from_def nul_free_take nul_free_drop
      split: if_splits)

lemma flush_stopped:
  "early_stop s \<Longrightarrow>
   flush s = (last_10_char s, s\<lparr>final_output := final_output s @ last_10_char s\<rparr>)"
  by (simp add: flush_def)

lemma flush_window:
  assumes "flush s = (ready, s')" and "\<not> early_stop s"
  shows "\<not> early_stop s'" and "ready @ last_10_char s' = last_10_char s"
    and "length (last_10_char s') = min (length (last_10_char s)) kCheckLastKChars"
    and "ready \<noteq> [] \<Longrightarrow> length (last_10_char s') = kCheckLastKChars"
  using assms
  by (auto simp: flush_def Let_def substr_def substr_from_def split: if_splits)

lemma decode_step_plain:
  assumes "stop_tokens e = []" and "ids \<noteq> []" and "\<not> early_stop s"
  shows "\<exists>ready s1. decode_step e ids s = Inr (ready, s1) \<and>
           early_stop s1 = (response_count s = max_num_output_tokens s) \<and>
           response_count s1 = response_count s \<and>
           max_num_output_tokens s1 = max_num_output_tokens s"
proof -
  obtain id0 rest where ids: "ids = id0 # rest" using assms(2) by (cases ids) auto
  show ?thesis
    using assms(1,3) by (simp add: decode_step_def ids flush_def Let_def)
qed

lemma decode_step_window:
  assumes "stop_tokens e = []" and "\<not> early_stop s"
  shows "\<exists>ready s'. decode_step e (id0 # rest) s = Inr (ready, s') \<and>
           early_stop s' = (response_count s = max_num_output_tokens s) \<and>
           response_count s' = response_count s \<and>
           max_num_output_tokens s' = max_num_output_tokens s \<and>
           final_output s' = final_output s @ ready \<and>
           (early_stop s' \<longrightarrow>
              ready = last_10_char s @ token_piece e id0 \<and> last_10_char s' = ready) \<and>
           (\<not> early_stop s' \<longrightarrow>
              ready @ last_10_char s' = last_10_char s @ token_piece e id0 \<and>
              length (last_10_char s') =
                min (length (last_10_char s @ token_piece e id0)) kCheckLastKChars \<and>
              (ready \<noteq> [] \<longrightarrow> length (last_10_char s') = kCheckLastKChars))"
proof -
  define buf where "buf = last_10_char s @ token_piece e id0"
  define t where "t = (if response_count s = max_num_output_tokens s
      then s\<lparr>early_stop := True\<rparr> else s)\<lparr>last_10_char := buf\<rparr>"
  obtain ready s' where fl: "flush t = (ready, s')" by (cases "flush t")
  have dec: "decode_step e (id0 # rest) s = Inr (ready, s')"
    using assms(1) fl
    by (cases "response_count s = max_num_output_tokens s")
      (simp_all add: decode_step_def Let_def t_def buf_def)
  have buf: "last_10_char t = buf" by (simp add: t_def)
  have t: "early_stop t = (response_count s = max_num_output_tokens s)"
    "response_count t = response_count s" "max_num_output_tokens t = max_num_output_tokens s"
    "final_output t = final_output s"
    using assms(2) by (simp_all add: t_def)
  have keep: "response_count s' = response_count s"
    "max_num_output_tokens s' = max_num_output_tokens s"
    "final_output s' = final_output s @ ready"
    using flush_response_count [OF fl] flush_max [OF fl] flush_text(1) [OF fl]
    by (simp_all add: t)
  show ?thesis
  proof (cases "early_stop t")
    case True
    with fl have "ready = buf" and "early_stop s'" and "last_10_char s' = buf"
      by (auto simp: flush_stopped buf)
    with dec keep True show ?thesis by (simp add: buf_def t)
  next
    case False
    from flush_window [OF fl False] dec keep False show ?thesis
      by (simp add: buf t flip: buf_def)
  qed
qed

lemma decode_step_Inr:
  "ids \<noteq> [] \<Longrightarrow> \<exists>ready s1. decode_step e ids s = Inr (ready, s1)"
  by (cases ids) (simp_all add: decode_step_def Let_def prod_eq_iff)

lemma decode_step_text:
  assumes "decode_step e ids s = Inr (ready, s1)"
  shows "final_output s1 = final_output s @ ready"
    and "pieces_nul_free e \<Longrightarrow> nul_free (last_10_char s) \<Longrightarrow>
         nul_free ready \<and> nul_free (last_10_char s1)"
proof -
  from assms obtain id0 rest where ids: "ids = id0 # rest"
    by (cases ids) (simp_all add: decode_step_def Let_def)
  define s0 where "s0 = (if response_count s = max_num_output_tokens s
      then s\<lparr>early_stop := True\<rparr> else s)"
  define s2 where "s2 = stop_token_loop (stop_tokens e)
      (s0\<lparr>last_10_char := last_10_char s0 @ token_piece e id0\<rparr>)"
  have fl: "flush s2 = (ready, s1)"
    using assms by (simp add: decode_step_def ids Let_def s0_def s2_def)
  have "final_output s2 = final_output s" by (simp add: s2_def s0_def)
  with flush_text(1) [OF fl] show "final_output s1 = final_output s @ ready" by simp
  show "nul_free ready \<and> nul_free (last_10_char s1)"
    if "pieces_nul_free e" and "nul_free (last_10_char s)"
  proof -
    have "nul_free (last_10_char s0 @ token_piece e id0)"
      using that by (simp add: s0_def pieces_nul_free_def)
    then have "nul_free (last_10_char s2)"
      unfolding s2_def by (intro stop_token_loop_nul_free) simp
    then show ?thesis by (rule flush_text(2) [OF fl])
  qed
qed

section \<open>Releasing a response context\<close>

lemma free_entries_done:
  "\<not> i < LlmResponseContext.response_count ctx \<Longrightarrow> free_entries ctx i h = Some h"
  by (subst free_entries.simps) simp

lemma free_entries_step:
  assumes "i < LlmResponseContext.response_count ctx"
    and "read_entry h (response_array ctx) i = Some p" and "free p h = Some h'"
  shows "free_entries ctx i h = free_entries ctx (Suc i) h'"
  using assms by (subst free_entries.simps) simp

lemma free_live:
  "is_chars (cells h p) \<Longrightarrow> free (Some p) h = Some (h\<lparr>cells := (cells h)(p := None)\<rparr>)"
  by (auto simp: free_def is_chars_def split: option.splits)

lemma free_entries_releases:
  "response_array ctx = Some arr \<Longrightarrow>
   LlmResponseContext.response_count ctx = length ps \<Longrightarrow>
   distinct (arr # ps) \<Longrightarrow>
   i \<le> length ps \<Longrightarrow> cells h arr = Some (Ptrs (map Some ps)) \<Longrightarrow>
   (\<forall>p \<in> set (drop i ps). is_chars (cells h p)) \<Longrightarrow>
   free_entries ctx i h =
     Some (h\<lparr>cells := (\<lambda>a. if a \<in> set (drop i ps) then None else cells h a)\<rparr>)"
proof (induction ctx i h rule: free_entries.induct)
  case (1 ctx i h)
  note arr = "1.prems"(1) and n = "1.prems"(2) and dist = "1.prems"(3)
    and le = "1.prems"(4) and cell = "1.prems"(5) and live_all = "1.prems"(6)
  show ?case
  proof (cases "i < length ps")
    case False
    with le have i: "i = length ps" by simp
    then have "\<not> i < LlmResponseContext.response_count ctx" using n by simp
    then have "free_entries ctx i h = Some h" by (rule free_entries_done)
    moreover have "h\<lparr>cells := (\<lambda>a. if a \<in> set (drop i ps) then None else cells h a)\<rparr> = h"
      using i by simp
    ultimately show ?thesis by simp
  next
    case True
    let ?p = "ps ! i"
    let ?h1 = "h\<lparr>cells := (cells h)(?p := None)\<rparr>"
    have drop: "drop i ps = ?p # drop (Suc i) ps"
      using True by (simp add: Cons_nth_drop_Suc)
    have read: "read_entry h (response_array ctx) i = Some (Some ?p)"
      using True cell arr by (simp add: read_entry_def)
    have live: "is_chars (cells h ?p)" using live_all drop by simp
    have fr: "free (Some ?p) h = Some ?h1" using live by (rule free_live)
    have p_arr: "?p \<noteq> arr" using dist True by auto
    have p_rest: "?p \<notin> set (drop (Suc i) ps)"
      using dist drop by (metis distinct.simps(2) distinct_drop)
    have less: "i < LlmResponseContext.response_count ctx" using True n by simp
    have "free_entries ctx (Suc i) ?h1 =
      Some (?h1\<lparr>cells := (\<lambda>a. if a \<in> set (drop (Suc i) ps) then None else cells ?h1 a)\<rparr>)"
    proof (rule "1.IH" [OF less read fr arr n dist])
      show "Suc i \<le> length ps" using True by simp
      show "cells ?h1 arr = Some (Ptrs (map Some ps))"
        using cell p_arr by simp
      show "\<forall>p \<in> set (drop (Suc i) ps). is_chars (cells ?h1 p)"
        using live_all drop p_rest by auto
    qed
    moreover have "(\<lambda>a. if a \<in> set (drop (Suc i) ps) then None else cells ?h1 a) =
        (\<lambda>a. if a \<in> set (drop i ps) then None else cells h a)"
    proof
      fix a
      have "a \<in> set (drop i ps) \<longleftrightarrow> a = ?p \<or> a \<in> set (drop (Suc i) ps)"
        by (subst drop) simp
      then show "(if a \<in> set (drop (Suc i) ps) then None else cells ?h1 a) =
          (if a \<in> set (drop i ps) then None else cells h a)"
        by simp
    qed
    ultimately show ?thesis
      by (simp add: free_entries_step [OF less read fr])
  qed
qed

section \<open>Runs of the decode loop\<close>

subsection \<open>The callback\<close>

lemma llm_cpu_callback [simp]: "llm (cpu_callback cb r s w) = llm w"
  by (simp add: cpu_callback_def Let_def split: prod.splits)

lemma requests_cpu_callback [simp]: "requests (cpu_callback cb r s w) = requests w"
  by (simp add: cpu_callback_def Let_def split: prod.splits)

lemma user_cpu_callback_record:
  "user (cpu_callback record_callback r s w) = user w @ [([Some (c_str r)], early_stop s)]"
  by (simp add: cpu_callback_def record_callback_def malloc_def store_def Let_def
      context_texts_def entry_text_def read_entry_def)

subsection \<open>Unfolding and induction\<close>

lemma ntf_stopped:
  "early_stop s \<or> \<not> response_count s <s max_num_output_tokens s \<Longrightarrow>
   next_token_function e cb (s, w) = Inr (s\<lparr>response_count := response_count s + 1\<rparr>, w)"
  by (auto simp: next_token_function.simps)

lemma ntf_step:
  assumes "response_count s <s max_num_output_tokens s" and "\<not> early_stop s"
    and "llm_GetNextToken e (llm w) = Inr (ids, l')"
    and "decode_step e ids (s\<lparr>response_count := response_count s + 1\<rparr>) = Inr (ready, s1)"
  shows "next_token_function e cb (s, w) =
         next_token_function e cb
           (s1, cpu_callback cb ready s1 (w\<lparr>llm := l', requests := Suc (requests w)\<rparr>))"
  using assms by (subst next_token_function.simps) simp

lemma ntf_get_failed:
  assumes "response_count s <s max_num_output_tokens s" and "\<not> early_stop s"
    and "llm_GetNextToken e (llm w) = Inl status"
  shows "next_token_function e cb (s, w) = Inl (GenerateFailed status)"
  using assms by (subst next_token_function.simps) simp

lemma ntf_decode_failed:
  assumes "response_count s <s max_num_output_tokens s" and "\<not> early_stop s"
    and "llm_GetNextToken e (llm w) = Inr (ids, l')"
    and "decode_step e ids (s\<lparr>response_count := response_count s + 1\<rparr>) = Inl f"
  shows "next_token_function e cb (s, w) = Inl f"
  using assms by (subst next_token_function.simps) simp

lemma ntf_Inr_cases:
  assumes "next_token_function e cb (s, w) = Inr (s', w')"
  obtains (stopped) "early_stop s \<or> \<not> response_count s <s max_num_output_tokens s"
      and "s' = s\<lparr>response_count := response_count s + 1\<rparr>" and "w' = w"
  | (step) ids l' ready s1 where "response_count s <s max_num_output_tokens s"
      and "\<not> early_stop s"
      and "llm_GetNextToken e (llm w) = Inr (ids, l')"
      and "decode_step e ids (s\<lparr>response_count := response_count s + 1\<rparr>) = Inr (ready, s1)"
      and "next_token_function e cb
             (s1, cpu_callback cb ready s1 (w\<lparr>llm := l', requests := Suc (requests w)\<rparr>)) =
           Inr (s', w')"
  using assms
  by (subst (asm) next_token_function.simps) (auto split: if_splits sum.splits prod.splits)

lemma ntf_run_induct [consumes 1, case_names stopped step]:
  assumes run: "next_token_function e cb (s, w) = Inr (s', w')"
    and stopped: "\<And>s w. early_stop s \<or> \<not> response_count s <s max_num_output_tokens s \<Longrightarrow>
        P s w (s\<lparr>response_count := response_count s + 1\<rparr>) w"
    and step: "\<And>s w ids l' ready s1 s' w'.
        response_count s <s max_num_output_tokens s \<Longrightarrow> \<not> early_stop s \<Longrightarrow>
        llm_GetNextToken e (llm w) = Inr (ids, l') \<Longrightarrow>
        decode_step e ids (s\<lparr>response_count := response_count s + 1\<rparr>) = Inr (ready, s1) \<Longrightarrow>
        next_token_function e cb
          (s1, cpu_callback cb ready s1 (w\<lparr>llm := l', requests := Suc (requests w)\<rparr>)) =
          Inr (s', w') \<Longrightarrow>
        P s1 (cpu_callback cb ready s1 (w\<lparr>llm := l', requests := Suc (requests w)\<rparr>)) s' w' \<Longrightarrow>
        P s w s' w'"
  shows "P s w s' w'"
  using run stopped step
proof (induction e cb "(s, w)" arbitrary: s w rule: next_token_function.induct)
  case (1 engine callback cpu_session w0)
  from "1.prems"(1) show ?case
  proof (cases rule: ntf_Inr_cases)
    case stopped
    show ?thesis using "1.prems"(2) [OF stopped(1)] by (simp only: stopped(2,3))
  next
    case (step ids l' ready s1)
    let ?w1 = "cpu_callback callback ready s1 (w0\<lparr>llm := l', requests := Suc (requests w0)\<rparr>)"
    have "P s1 ?w1 s' w'"
      by (rule "1.hyps" [OF step(1,2,3) refl step(4) refl step(5) "1.prems"(2,3)])
    then show ?thesis by (rule "1.prems"(3) [OF step(1-5)])
  qed
qed

subsection \<open>Runs that reach the ceiling, runs that return\<close>

lemma backend_ok_SucD:
  "backend_ok e l (Suc n) \<Longrightarrow>
   \<exists>ids l'. llm_GetNextToken e l = Inr (ids, l') \<and> ids \<noteq> [] \<and> backend_ok e l' n"
  by (cases "llm_GetNextToken e l") auto

lemma run_without_stop_tokens:
  assumes "stop_tokens e = []"
  shows "\<not> early_stop s \<Longrightarrow>
    sint (max_num_output_tokens s) - sint (response_count s) = int (Suc m) \<Longrightarrow>
    backend_ok e (llm w) (Suc m) \<Longrightarrow>
    \<exists>s' w'. next_token_function e record_callback (s, w) = Inr (s', w') \<and>
      requests w' = requests w + Suc m \<and>
      map snd (user w') = map snd (user w) @ replicate m False @ [True]"
proof (induction m arbitrary: s w)
  case 0
  let ?s0 = "s\<lparr>response_count := response_count s + 1\<rparr>"
  from "0.prems"(2) have less: "response_count s <s max_num_output_tokens s"
    by (simp add: word_sless_alt)
  from backend_ok_SucD [OF "0.prems"(3)]
  obtain ids l' where get: "llm_GetNextToken e (llm w) = Inr (ids, l')"
    and ids: "ids \<noteq> []"
    by blast
  have succ: "sint (response_count s + 1) = sint (response_count s) + 1"
    using less by (rule sint_succ_of_sless)
  with "0.prems"(2) have at_max: "response_count s + 1 = max_num_output_tokens s"
    by (simp add: sint_eq_iff)
  from decode_step_plain [OF assms ids, of ?s0] "0.prems"(1) at_max
  obtain ready s1 where dec: "decode_step e ids ?s0 = Inr (ready, s1)"
    and s1: "early_stop s1" by auto
  let ?w1 = "cpu_callback record_callback ready s1 (w\<lparr>llm := l', requests := Suc (requests w)\<rparr>)"
  have "next_token_function e record_callback (s, w) =
        next_token_function e record_callback (s1, ?w1)"
    using less "0.prems"(1) get dec by (rule ntf_step)
  also have "\<dots> = Inr (s1\<lparr>response_count := response_count s1 + 1\<rparr>, ?w1)"
    using s1 by (simp add: ntf_stopped)
  finally show ?case
    by (simp add: user_cpu_callback_record s1)
next
  case (Suc m)
  let ?s0 = "s\<lparr>response_count := response_count s + 1\<rparr>"
  from Suc.prems(2) have less: "response_count s <s max_num_output_tokens s"
    by (simp add: word_sless_alt)
  from backend_ok_SucD [OF Suc.prems(3)]
  obtain ids l' where get: "llm_GetNextToken e (llm w) = Inr (ids, l')"
    and ids: "ids \<noteq> []" and rest: "backend_ok e l' (Suc m)"
    by blast
  have succ: "sint (response_count s + 1) = sint (response_count s) + 1"
    using less by (rule sint_succ_of_sless)
  with Suc.prems(2) have not_max: "response_count s + 1 \<noteq> max_num_output_tokens s"
    by (auto simp: sint_eq_iff)
  from decode_step_plain [OF assms ids, of ?s0] Suc.prems(1) not_max
  obtain ready s1 where dec: "decode_step e ids ?s0 = Inr (ready, s1)"
    and s1: "\<not> early_stop s1" "response_count s1 = response_count s + 1"
      "max_num_output_tokens s1 = max_num_output_tokens s" by auto
  let ?w1 = "cpu_callback record_callback ready s1 (w\<lparr>llm := l', requests := Suc (requests w)\<rparr>)"
  have step: "next_token_function e record_callback (s, w) =
        next_token_function e record_callback (s1, ?w1)"
    using less Suc.prems(1) get dec by (rule ntf_step)
  have "sint (max_num_output_tokens s1) - sint (response_count s1) = int (Suc m)"
    using Suc.prems(2) succ by (simp add: s1)
  moreover have "backend_ok e (llm ?w1) (Suc m)" using rest by simp
  ultimately obtain s' w' where
    "next_token_function e record_callback (s1, ?w1) = Inr (s', w')"
    "requests w' = requests ?w1 + Suc m"
    "map snd (user w') = map snd (user ?w1) @ replicate m False @ [True]"
    using Suc.IH [OF s1(1), of ?w1] by blast
  with step show ?case
    by (simp add: user_cpu_callback_record s1 replicate_app_Cons_same)
qed

lemma run_drains_buffer:
  assumes "stop_tokens e = []"
  shows "\<not> early_stop s \<Longrightarrow>
    sint (max_num_output_tokens s) - sint (response_count s) = int (Suc m) \<Longrightarrow>
    backend_ok e (llm w) (Suc m) \<Longrightarrow>
    \<exists>s' w' chunks r. next_token_function e record_callback (s, w) = Inr (s', w') \<and>
      user w' = user w @ map (\<lambda>c. ([Some (c_str c)], False)) chunks @ [([Some (c_str r)], True)] \<and>
      length chunks = m \<and>
      concat chunks @ r = last_10_char s @ concat (backend_pieces e (llm w) (Suc m)) \<and>
      r = last_10_char s' \<and>
      final_output s' = final_output s @ concat chunks @ r"
proof (induction m arbitrary: s w)
  case 0
  let ?s0 = "s\<lparr>response_count := response_count s + 1\<rparr>"
  from "0.prems"(2) have less: "response_count s <s max_num_output_tokens s"
    by (simp add: word_sless_alt)
  from backend_ok_SucD [OF "0.prems"(3)]
  obtain ids l' where get: "llm_GetNextToken e (llm w) = Inr (ids, l')"
    and "ids \<noteq> []"
    by blast
  then obtain id0 rest where ids: "ids = id0 # rest" by (cases ids) auto
  have succ: "sint (response_count s + 1) = sint (response_count s) + 1"
    using less by (rule sint_succ_of_sless)
  with "0.prems"(2) have at_max: "response_count s + 1 = max_num_output_tokens s"
    by (simp add: sint_eq_iff)
  have go: "\<not> early_stop ?s0" using "0.prems"(1) by simp
  from decode_step_window [OF assms go, of id0 rest] at_max
  obtain ready s1 where dec: "decode_step e ids ?s0 = Inr (ready, s1)"
    and s1: "early_stop s1" "final_output s1 = final_output s @ ready"
      "ready = last_10_char s @ token_piece e id0" "last_10_char s1 = ready"
    by (auto simp: ids)
  let ?w1 = "cpu_callback record_callback ready s1 (w\<lparr>llm := l', requests := Suc (requests w)\<rparr>)"
  have "next_token_function e record_callback (s, w) =
        next_token_function e record_callback (s1, ?w1)"
    using less "0.prems"(1) get dec by (rule ntf_step)
  also have "\<dots> = Inr (s1\<lparr>response_count := response_count s1 + 1\<rparr>, ?w1)"
    using s1(1) by (simp add: ntf_stopped)
  finally have run: "next_token_function e record_callback (s, w) =
      Inr (s1\<lparr>response_count := response_count s1 + 1\<rparr>, ?w1)" .
  have pieces: "backend_pieces e (llm w) (Suc 0) = [token_piece e id0]"
    by (simp add: get ids)
  show ?case
    apply (rule exI [of _ "s1\<lparr>response_count := response_count s1 + 1\<rparr>"])
    apply (rule exI [of _ ?w1])
    apply (rule exI [of _ "[]"])
    apply (rule exI [of _ ready])
    apply (simp only: run pieces)
    apply (simp add: user_cpu_callback_record s1(1,2,4))
    apply (simp add: s1(3))
    done
next
  case (Suc m)
  let ?s0 = "s\<lparr>response_count := response_count s + 1\<rparr>"
  from Suc.prems(2) have less: "response_count s <s max_num_output_tokens s"
    by (simp add: word_sless_alt)
  from backend_ok_SucD [OF Suc.prems(3)]
  obtain ids l' where get: "llm_GetNextToken e (llm w) = Inr (ids, l')"
    and "ids \<noteq> []" and rest: "backend_ok e l' (Suc m)"
    by blast
  then obtain id0 rest' where ids: "ids = id0 # rest'" by (cases ids) auto
  have succ: "sint (response_count s + 1) = sint (response_count s) + 1"
    using less by (rule sint_succ_of_sless)
  with Suc.prems(2) have not_max: "response_count s + 1 \<noteq> max_num_output_tokens s"
    by (auto simp: sint_eq_iff)
  have go: "\<not> early_stop ?s0" using Suc.prems(1) by simp
  from decode_step_window [OF assms go, of id0 rest'] not_max
  obtain ready s1 where dec: "decode_step e ids ?s0 = Inr (ready, s1)"
    and s1: "\<not> early_stop s1" "response_count s1 = response_count s + 1"
      "max_num_output_tokens s1 = max_num_output_tokens s"
    and text1: "final_output s1 = final_output s @ ready"
      "ready @ last_10_char s1 = last_10_char s @ token_piece e id0"
    by (auto simp: ids)
  let ?w1 = "cpu_callback record_callback ready s1 (w\<lparr>llm := l', requests := Suc (requests w)\<rparr>)"
  have step: "next_token_function e record_callback (s, w) =
        next_token_function e record_callback (s1, ?w1)"
    using less Suc.prems(1) get dec by (rule ntf_step)
  have "sint (max_num_output_tokens s1) - sint (response_count s1) = int (Suc m)"
    using Suc.prems(2) succ by (simp add: s1)
  moreover have "backend_ok e (llm ?w1) (Suc m)" using rest by simp
  ultimately obtain s' w' chunks r where tail:
    "next_token_function e record_callback (s1, ?w1) = Inr (s', w')"
    "user w' = user ?w1 @ map (\<lambda>c. ([Some (c_str c)], False)) chunks @ [([Some (c_str r)], True)]"
    "length chunks = m"
    "concat chunks @ r = last_10_char s1 @ concat (backend_pieces e (llm ?w1) (Suc m))"
    "r = last_10_char s'"
    "final_output s' = final_output s1 @ concat chunks @ r"
    using Suc.IH [OF s1(1), of ?w1] by blast
  have llm1: "llm ?w1 = l'" by simp
  have pieces: "backend_pieces e (llm w) (Suc (Suc m)) =
      token_piece e id0 # backend_pieces e l' (Suc m)"
    by (simp add: get ids)
  have all: "concat (ready # chunks) @ r =
      last_10_char s @ concat (backend_pieces e (llm w) (Suc (Suc m)))"
  proof -
    have "concat (ready # chunks) @ r = ready @ (concat chunks @ r)" by simp
    also have "\<dots> = (ready @ last_10_char s1) @ concat (backend_pieces e l' (Suc m))"
      by (simp only: tail(4) llm1 append_assoc)
    also have "\<dots> = last_10_char s @ concat (backend_pieces e (llm w) (Suc (Suc m)))"
      by (simp only: text1(2) pieces concat.simps append_assoc)
    finally show ?thesis .
  qed
  have out: "final_output s' = final_output s @ concat (ready # chunks) @ r"
    by (simp add: tail(6) text1(1))
  have log: "user w' = user w @
      map (\<lambda>c. ([Some (c_str c)], False)) (ready # chunks) @ [([Some (c_str r)], True)]"
    by (simp add: tail(2) user_cpu_callback_record s1(1))
  have run: "next_token_function e record_callback (s, w) = Inr (s', w')"
    by (simp only: step tail(1))
  have len: "length (ready # chunks) = Suc m" by (simp add: tail(3))
  show ?case
    by (rule exI [of _ s'], rule exI [of _ w'], rule exI [of _ "ready # chunks"],
        rule exI [of _ r])
      (intro conjI run log len all tail(5) out)
qed

lemma ntf_total:
  assumes "backend_reliable e"
  shows "\<exists>r. next_token_function e cb (s, w) = Inr r"
  using assms
proof (induction e cb "(s, w)" arbitrary: s w rule: next_token_function.induct)
  case (1 engine callback cpu_session w)
  show ?case
  proof (cases "early_stop cpu_session \<or>
      \<not> response_count cpu_session <s max_num_output_tokens cpu_session")
    case True
    then show ?thesis by (simp add: ntf_stopped)
  next
    case False
    then have less: "response_count cpu_session <s max_num_output_tokens cpu_session"
      and go: "\<not> early_stop cpu_session" by simp_all
    from "1.prems" obtain ids l' where get: "llm_GetNextToken engine (llm w) = Inr (ids, l')"
      and ids: "ids \<noteq> []"
      unfolding backend_reliable_def
      by (cases "llm_GetNextToken engine (llm w)") (auto dest: spec [of _ "llm w"])
    from decode_step_Inr [OF ids] obtain ready s1 where
      dec: "decode_step engine ids
        (cpu_session\<lparr>response_count := response_count cpu_session + 1\<rparr>) = Inr (ready, s1)"
      by blast
    show ?thesis
      unfolding ntf_step [OF less go get dec]
      by (rule "1.hyps" [OF less go get refl dec refl "1.prems"])
  qed
qed

subsection \<open>The callback has no influence on the session and the backend\<close>

lemma ntf_callback_irrelevant:
  "llm w2 = llm w1 \<Longrightarrow>
   session_and_llm (next_token_function e cb2 (s, w2)) =
   session_and_llm (next_token_function e cb1 (s, w1))"
proof (induction e cb1 "(s, w1)" arbitrary: s w1 w2 rule: next_token_function.induct)
  case (1 engine callback cpu_session w)
  show ?case
  proof (cases "early_stop cpu_session \<or>
      \<not> response_count cpu_session <s max_num_output_tokens cpu_session")
    case True
    then show ?thesis using "1.prems" by (simp add: ntf_stopped session_and_llm_def)
  next
    case False
    then have less: "response_count cpu_session <s max_num_output_tokens cpu_session"
      and go: "\<not> early_stop cpu_session" by simp_all
    show ?thesis
    proof (cases "llm_GetNextToken engine (llm w)")
      case (Inl status)
      then show ?thesis
        using less go "1.prems" by (simp add: ntf_get_failed session_and_llm_def)
    next
      case (Inr b)
      obtain ids l' where b: "b = (ids, l')" by (cases b)
      have get1: "llm_GetNextToken engine (llm w) = Inr (ids, l')" using Inr b by simp
      then have get2: "llm_GetNextToken engine (llm w2) = Inr (ids, l')"
        using "1.prems" by simp
      show ?thesis
      proof (cases "decode_step engine ids
          (cpu_session\<lparr>response_count := response_count cpu_session + 1\<rparr>)")
        case (Inl f)
        then show ?thesis
          using less go get1 get2 by (simp add: ntf_decode_failed session_and_llm_def)
      next
        case (Inr ba)
        obtain ready s1 where ba: "ba = (ready, s1)" by (cases ba)
        have dec: "decode_step engine ids
          (cpu_session\<lparr>response_count := response_count cpu_session + 1\<rparr>) = Inr (ready, s1)"
          using Inr ba by simp
        let ?w1 = "cpu_callback callback ready s1 (w\<lparr>llm := l', requests := Suc (requests w)\<rparr>)"
        let ?w2 = "cpu_callback cb2 ready s1 (w2\<lparr>llm := l', requests := Suc (requests w2)\<rparr>)"
        have "session_and_llm (next_token_function engine cb2 (s1, ?w2)) =
              session_and_llm (next_token_function engine callback (s1, ?w1))"
          by (rule "1.hyps" [OF less go get1 refl dec refl]) simp
        then show ?thesis
          by (simp add: ntf_step [OF less go get1 dec] ntf_step [OF less go get2 dec])
      qed
    qed
  qed
qed

subsection \<open>The text a run produces\<close>

lemma ntf_nul_free:
  assumes "next_token_function e cb (s, w) = Inr (s', w')" and "pieces_nul_free e"
  shows "nul_free (last_10_char s) \<and> nul_free (final_output s) \<longrightarrow>
         nul_free (last_10_char s') \<and> nul_free (final_output s')"
  using assms(1)
proof (induction rule: ntf_run_induct)
  case (stopped s w)
  then show ?case by simp
next
  case (step s w ids l' ready s1 s' w')
  from decode_step_text [OF step(4)] assms(2) step(6) show ?case by simp
qed

lemma ntf_chunks:
  assumes "next_token_function e record_callback (s, w) = Inr (s', w')"
  shows "\<exists>chunks. map fst (user w') = map fst (user w) @ map (\<lambda>c. [Some (c_str c)]) chunks \<and>
           final_output s' = final_output s @ concat chunks \<and>
           (pieces_nul_free e \<longrightarrow> nul_free (last_10_char s) \<longrightarrow>
              (\<forall>c \<in> set chunks. nul_free c))"
  using assms
proof (induction rule: ntf_run_induct)
  case (stopped s w)
  show ?case by (intro exI [of _ "[]"]) simp
next
  case (step s w ids l' ready s1 s' w')
  note parts = decode_step_text [OF step(4)]
  from step(6) obtain chunks where
    ch: "map fst (user w') =
         map fst (user (cpu_callback record_callback ready s1
           (w\<lparr>llm := l', requests := Suc (requests w)\<rparr>))) @
         map (\<lambda>c. [Some (c_str c)]) chunks"
      "final_output s' = final_output s1 @ concat chunks"
      "pieces_nul_free e \<longrightarrow> nul_free (last_10_char s1) \<longrightarrow> (\<forall>c \<in> set chunks. nul_free c)"
    by blast
  have "map fst (user w') =
      map fst (user w) @ map (\<lambda>c. [Some (c_str c)]) (ready # chunks)"
    using ch(1) by (simp add: user_cpu_callback_record)
  moreover have "final_output s' = final_output s @ concat (ready # chunks)"
    using ch(2) parts(1) by simp
  moreover have "pieces_nul_free e \<longrightarrow> nul_free (last_10_char s) \<longrightarrow>
      (\<forall>c \<in> set (ready # chunks). nul_free c)"
  proof (intro impI)
    assume pieces: "pieces_nul_free e" and buffer: "nul_free (last_10_char s)"
    from buffer have "nul_free (last_10_char (s\<lparr>response_count := response_count s + 1\<rparr>))"
      by simp
    from parts(2) [OF pieces this]
    have ready: "nul_free ready" and s1: "nul_free (last_10_char s1)" by blast+
    from ch(3) pieces s1 have "\<forall>c \<in> set chunks. nul_free c" by blast
    with ready show "\<forall>c \<in> set (ready # chunks). nul_free c" by simp
  qed
  ultimately show ?case
    by (intro exI [of _ "ready # chunks"] conjI)
qed

subsection \<open>The token counter\<close>



section \<open>Predict\<close>

lemma start_llm_function_Inr:
  assumes "start_llm_function e cb (s, w) = Inr r"
  obtains ids l0 where "tokenizer_Encode e (prompt s) = Inr ids"
    and "llm_InitInputTokens e (start_token_id e # ids) (llm w) = Inr l0"
    and "next_token_function e cb
           (s\<lparr>max_num_output_tokens :=
                ucast (max_num_tokens e - of_nat (length (start_token_id e # ids)))\<rparr>,
            w\<lparr>llm := l0\<rparr>) = Inr r"
  using assms by (auto simp: start_llm_function_def Let_def split: sum.splits)

lemma start_llm_function_ok:
  assumes "tokenizer_Encode e (prompt s) = Inr ids"
    and "llm_InitInputTokens e (start_token_id e # ids) (llm w) = Inr l0"
  shows "start_llm_function e cb (s, w) =
         next_token_function e cb
           (s\<lparr>max_num_output_tokens :=
                ucast (max_num_tokens e - of_nat (length (start_token_id e # ids)))\<rparr>,
            w\<lparr>llm := l0\<rparr>)"
  using assms by (simp add: start_llm_function_def)

lemma session_and_llm_Inr:
  assumes "session_and_llm r = session_and_llm (Inr (s, w))"
  obtains w2 where "r = Inr (s, w2)" and "llm w2 = llm w"
  using assms by (cases r) (auto simp: session_and_llm_def)


lemma PredictAsync_nul_free:
  assumes "LlmInferenceEngine_Session_PredictAsync e cb input (s, w) = Inr (s', w')"
    and "pieces_nul_free e"
  shows "nul_free (final_output s')"
proof -
  from assms(1) obtain s0 w0 where
    run: "next_token_function e cb (s0, w0) = Inr (s', w')"
    and s0: "last_10_char s0 = []" "final_output s0 = []"
    unfolding LlmInferenceEngine_Session_PredictAsync_def
    by (auto elim!: start_llm_function_Inr simp: reset_request_def)
  from ntf_nul_free [OF run assms(2)] s0 show ?thesis by simp
qed

lemma PredictSync_Inr:
  assumes "LlmInferenceEngine_Session_PredictSync e input sw = Inr (ctx, s', w')"
  shows "LlmResponseContext.response_count ctx = 1" and "done_flag ctx"
    and "context_texts (mem w') ctx = [Some (c_str (final_output s'))]"
    and "\<exists>w1. LlmInferenceEngine_Session_PredictAsync e (\<lambda>response_context h u. u) input sw =
           Inr (s', w1)"
  using assms
  by (auto simp: LlmInferenceEngine_Session_PredictSync_def Let_def malloc_def store_def
      context_texts_def entry_text_def read_entry_def split: sum.splits)

lemma PredictSync_of_async:
  assumes "LlmInferenceEngine_Session_PredictAsync e (\<lambda>response_context h u. u) input sw =
           Inr (s', w1)"
  shows "\<exists>ctx w'. LlmInferenceEngine_Session_PredictSync e input sw = Inr (ctx, s', w')"
  using assms
  by (simp add: LlmInferenceEngine_Session_PredictSync_def Let_def malloc_def)

lemma PredictSync_owned:
  assumes "LlmInferenceEngine_Session_PredictSync e input sw = Inr (ctx, s', w')"
  shows "\<exists>a. response_array ctx = Some a \<and> owned_buffer (mem w') ctx a [Suc a]"
  using assms
  by (auto simp: LlmInferenceEngine_Session_PredictSync_def Let_def malloc_def store_def
      owned_buffer_def is_chars_def split: sum.splits)

section \<open>The example engine\<close>

lemmas demo_simps = npos_roundtrip_value word_sless_alt
  LlmInferenceEngine_Session_PredictAsync_def start_llm_function_def reset_request_def
  next_token_function.simps decode_step_def token_piece_def flush_def cpu_callback_def
  record_callback_def malloc_def store_def context_texts_def entry_text_def read_entry_def
  snprintf_s_def c_str_def substr_def substr_from_def string_find_def npos_def
  kCheckLastKChars_def demo_engine_def demo_piece_def fresh_session_def fresh_host_def Let_def

lemma demo_pieces_nul_free: "pieces_nul_free (demo_engine stops budget)"
  by (simp add: pieces_nul_free_def token_piece_def demo_engine_def demo_piece_def nul_free_def)

lemma demo_backend_reliable: "backend_reliable (demo_engine stops budget)"
  by (simp add: backend_reliable_def demo_engine_def)

lemma demo_ceiling: "(ucast (2 - 6 :: size_t) :: int32) = - 4"
proof -
  have "sint (ucast ((2 :: size_t) - of_nat 6) :: int32) = uint (2 :: size_t) - int 6"
    by (rule ceiling_value) simp_all
  then have "sint (ucast (2 - 6 :: size_t) :: int32) = - 4" by simp
  then have "(ucast (2 - 6 :: size_t) :: int32) = word_of_int (- 4)" by (rule int32_of_sint)
  then show ?thesis by simp
qed

lemma demo_ceiling_beyond_int: "(ucast (2147483650 - 2 :: size_t) :: int32) = - 2147483648"
  by simp

lemma demo_backend_ok: "backend_ok (demo_engine stops budget) l n"
  by (induction n arbitrary: l) (simp_all add: demo_engine_def)

lemma demo_pieces_7:
  "concat (backend_pieces (demo_engine [] 9) 0 (Suc 6)) = ''Hi</s>extraHi</''"
proof -
  have six: "(6 :: nat) = Suc (Suc (Suc (Suc (Suc (Suc 0)))))" by simp
  show ?thesis
    unfolding six by (simp add: demo_engine_def demo_piece_def token_piece_def)
qed

lemma demo_window_step:
  "decode_step (demo_engine [] 12) [3]
     (fresh_session\<lparr>max_num_output_tokens := 10, response_count := 4,
        last_10_char := ''0123456789''\<rparr>) =
   Inr (''012'',
        fresh_session\<lparr>max_num_output_tokens := 10, response_count := 4,
          last_10_char := ''3456789ext'', final_output := ''012''\<rparr>)"
  by (simp add: demo_simps)

lemma demo_final_step:
  "decode_step (demo_engine [] 12) [3]
     (fresh_session\<lparr>max_num_output_tokens := 10, response_count := 10,
        last_10_char := ''0123456789''\<rparr>) =
   Inr (''0123456789ext'',
        fresh_session\<lparr>max_num_output_tokens := 10, response_count := 10,
          last_10_char := ''0123456789ext'', final_output := ''0123456789ext'',
          early_stop := True\<rparr>)"
  by (simp add: demo_simps)

lemma demo_window_run:
  "\<exists>s1 w1. next_token_function (demo_engine [] 9) record_callback
       (fresh_session\<lparr>max_num_output_tokens := 7\<rparr>, (fresh_host [])\<lparr>llm := 0\<rparr>) =
       Inr (s1, w1) \<and>
     user w1 = [([Some ''''], False), ([Some ''''], False), ([Some ''''], False),
       ([Some ''''], False), ([Some ''H''], False), ([Some ''i<''], False),
       ([Some ''/s>extraHi</''], True)] \<and>
     last_10_char s1 = ''/s>extraHi</'' \<and> final_output s1 = ''Hi</s>extraHi</''"
  by (simp add: demo_simps)

lemma demo_async_run:
  "\<exists>sa wa. LlmInferenceEngine_Session_PredictAsync (demo_engine [''</s>''] 12) record_callback
       ''Q'' (fresh_session, fresh_host []) = Inr (sa, wa) \<and>
     final_output sa = ''Hi'' \<and> requests wa = 3 \<and> llm wa = 3 \<and>
     user wa = [([Some ''''], False), ([Some ''''], False), ([Some ''Hi''], True)]"
  by (simp add: demo_simps)

lemma demo_sync_run:
  "\<exists>ctx ss ws. LlmInferenceEngine_Session_PredictSync (demo_engine [''</s>''] 12) ''Q''
       (fresh_session, fresh_host ()) = Inr (ctx, ss, ws) \<and> final_output ss = ''Hi''"
  by (simp add: demo_simps LlmInferenceEngine_Session_PredictSync_def)

lemma demo_sync_context:
  "\<exists>ctx ss ws. LlmInferenceEngine_Session_PredictSync (demo_engine [''</s>''] 12) ''Q''
       (fresh_session, fresh_host ()) = Inr (ctx, ss, ws) \<and>
     response_array ctx = Some 6 \<and> cells (mem ws) 7 = Some (Chars ''Hi'')"
  by (simp add: demo_simps LlmInferenceEngine_Session_PredictSync_def)


section \<open>The claims\<close>

text \<open>
  C1 (amended). The stop-token loop does not pick the lowest starting index among all
  configured sequences. For a trailing buffer shorter than \<open>2 ^ 31\<close> characters it picks
  the first configured sequence, in configuration order, that occurs anywhere in the buffer,
  sets the early-stop flag and truncates the buffer at the lowest starting index of that
  sequence; when no configured sequence occurs the session is unchanged.
\<close>

theorem stop_token_loop_first_configured:
  assumes "length (last_10_char s) < 2 ^ 31"
  shows "((\<forall>t \<in> set ts. \<not> occurs t (last_10_char s)) \<longrightarrow> stop_token_loop ts s = s) \<and>
         (\<forall>k i. k < length ts \<and> (\<forall>k' < k. \<not> occurs (ts ! k') (last_10_char s)) \<and>
                occurs_at (ts ! k) (last_10_char s) i \<and>
                (\<forall>j < i. \<not> occurs_at (ts ! k) (last_10_char s) j) \<longrightarrow>
                stop_token_loop ts s =
                  s\<lparr>early_stop := True, last_10_char := take i (last_10_char s)\<rparr>)"
  using assms by (auto intro: stop_token_loop_none stop_token_loop_first)

theorem stop_token_loop_first_configured_witness:
  "length (last_10_char \<lparr>prompt = ''p'', max_num_output_tokens = 8, response_count = 4,
       last_10_char = ''xabc'', final_output = [], early_stop = False\<rparr>) < 2 ^ 31 \<and>
   stop_token_loop [''bc'', ''abc'']
     \<lparr>prompt = ''p'', max_num_output_tokens = 8, response_count = 4,
      last_10_char = ''xabc'', final_output = [], early_stop = False\<rparr> =
     \<lparr>prompt = ''p'', max_num_output_tokens = 8, response_count = 4,
      last_10_char = ''xa'', final_output = [], early_stop = True\<rparr>"
proof -
  let ?s = "\<lparr>prompt = ''p'', max_num_output_tokens = 8, response_count = 4,
      last_10_char = ''xabc'', final_output = [], early_stop = False\<rparr>"
  have len: "length (last_10_char ?s) < 2 ^ 31" by simp
  have "stop_token_loop [''bc'', ''abc''] ?s =
      ?s\<lparr>early_stop := True, last_10_char := take 2 (last_10_char ?s)\<rparr>"
    by (rule stop_token_loop_first_configured [OF len, THEN conjunct2, rule_format, of 0 _ 2])
      (simp add: occurs_at_def less_2_cases_iff)
  with len show ?thesis by simp
qed

text \<open>
  C1 as stated fails: with the stop sequences \<open>bc\<close> and \<open>abc\<close> configured in this order and
  the buffer \<open>xabc\<close>, the lowest starting index of a match is 1 (of \<open>abc\<close>), but the loop
  stops at \<open>bc\<close>, the first configured sequence, and truncates at index 2.
\<close>

theorem stop_token_loop_not_earliest:
  "last_10_char (stop_token_loop [''bc'', ''abc'']
     \<lparr>prompt = ''p'', max_num_output_tokens = 8, response_count = 4,
      last_10_char = ''xabc'', final_output = [], early_stop = False\<rparr>) = ''xa'' \<and>
   truncate_at_earliest_match [''bc'', ''abc''] ''xabc'' = ''x''"
  by (simp add: Let_def string_find_def npos_def substr_def truncate_at_earliest_match_def)

text \<open>
  C2 (amended). The code has no check of the output-token ceiling. On a fresh session, for a
  prompt whose encoded length (the start token included) is at least the token budget, both
  below \<open>2 ^ 31\<close>, and collaborators that do not fail, predict reports no error: the backend
  is initialised with the encoded prompt, the ceiling is set to the non-positive difference,
  no next token is requested, the callback is never called and the accumulated output is
  empty.
\<close>

theorem prompt_over_budget_not_rejected:
  assumes "response_count s = 0"
    and "tokenizer_Encode e input = Inr ids"
    and "llm_InitInputTokens e (start_token_id e # ids) (llm w) = Inr l0"
    and "unat (max_num_tokens e) < 2 ^ 31"
    and "length (start_token_id e # ids) < 2 ^ 31"
    and "unat (max_num_tokens e) \<le> length (start_token_id e # ids)"
  shows "LlmInferenceEngine_Session_PredictAsync e cb input (s, w) =
         Inr (s\<lparr>prompt := input,
                max_num_output_tokens :=
                  ucast (max_num_tokens e - of_nat (length (start_token_id e # ids))),
                response_count := 1, last_10_char := [], final_output := [],
                early_stop := False\<rparr>,
              w\<lparr>llm := l0\<rparr>)"
proof -
  let ?c = "ucast (max_num_tokens e - of_nat (length (start_token_id e # ids))) :: int32"
  let ?s = "(reset_request input s)\<lparr>max_num_output_tokens := ?c\<rparr>"
  have "sint ?c \<le> 0" using assms(4-6) by (rule ceiling_non_positive)
  then have "\<not> response_count ?s <s max_num_output_tokens ?s"
    using assms(1) by (simp add: word_sless_alt reset_request_def)
  then have "next_token_function e cb (?s, w\<lparr>llm := l0\<rparr>) =
      Inr (?s\<lparr>response_count := response_count ?s + 1\<rparr>, w\<lparr>llm := l0\<rparr>)"
    by (simp add: ntf_stopped)
  moreover have "LlmInferenceEngine_Session_PredictAsync e cb input (s, w) =
      next_token_function e cb (?s, w\<lparr>llm := l0\<rparr>)"
    using assms(2,3)
    by (simp add: LlmInferenceEngine_Session_PredictAsync_def start_llm_function_def
        reset_request_def)
  ultimately show ?thesis using assms(1) by (simp add: reset_request_def)
qed


theorem prompt_over_budget_not_rejected_witness:
  "LlmInferenceEngine_Session_PredictAsync (demo_engine [] 2) record_callback ''Hello''
     (fresh_session, fresh_host []) =
   Inr (fresh_session\<lparr>prompt := ''Hello'', max_num_output_tokens := - 4, response_count := 1\<rparr>,
        (fresh_host [])\<lparr>llm := 0\<rparr>)"
proof -
  let ?e = "demo_engine [] 2 :: nat LlmInferenceEngineCpu_Engine"
  have "LlmInferenceEngine_Session_PredictAsync ?e record_callback ''Hello''
     (fresh_session, fresh_host []) =
     Inr (fresh_session\<lparr>prompt := ''Hello'',
            max_num_output_tokens :=
              ucast (max_num_tokens ?e - of_nat (length (start_token_id ?e # [72, 101, 108, 108, 111]))),
            response_count := 1, last_10_char := [], final_output := [],
            early_stop := False\<rparr>,
          (fresh_host [])\<lparr>llm := 0\<rparr>)"
    by (rule prompt_over_budget_not_rejected)
      (simp_all add: demo_engine_def fresh_session_def fresh_host_def)
  then show ?thesis
    by (simp add: demo_engine_def fresh_session_def demo_ceiling)
qed


text \<open>
  C2 as stated fails: with a budget of 2 tokens and the prompt \<open>Hello\<close>, six token ids with
  the start token, the ceiling is \<open>-4\<close> and predict returns normally, the backend initialised
  (rewound from position 99 to 0), nothing requested and nothing delivered.
\<close>

theorem prompt_over_budget_no_error:
  "sint (ucast (max_num_tokens (demo_engine [] 2 :: nat LlmInferenceEngineCpu_Engine) -
      of_nat (length (start_token_id (demo_engine [] 2 :: nat LlmInferenceEngineCpu_Engine) #
        [72, 101, 108, 108, 111]))) :: int32) = - 4 \<and>
   tokenizer_Encode (demo_engine [] 2 :: nat LlmInferenceEngineCpu_Engine) ''Hello'' =
     Inr [72, 101, 108, 108, 111] \<and>
   LlmInferenceEngine_Session_PredictAsync (demo_engine [] 2) record_callback ''Hello''
     (fresh_session, fresh_host []) =
   Inr (\<lparr>prompt = ''Hello'', max_num_output_tokens = - 4, response_count = 1,
         last_10_char = [], final_output = [], early_stop = False\<rparr>,
        \<lparr>llm = 0, requests = 0, mem = \<lparr>cells = Map.empty, brk = 0\<rparr>, user = []\<rparr>)"
  by (simp add: demo_ceiling demo_simps)

text \<open>
  C3 (amended). The output-token ceiling is an \<^verbatim>\<open>int\<close>: lines 159--160 store in it the
  \<^verbatim>\<open>size_t\<close> difference of the token budget and the encoded prompt length. On a fresh
  session (no token counted yet), with no stop sequence configured and an encoded prompt
  (the start token followed by the tokenizer's ids, as handed to the backend) shorter than
  the token budget by less than \<open>2 ^ 31\<close>, so that the difference fits the ceiling,
  asynchronous predict requests exactly budget minus encoded prompt length next tokens, and
  the callback sees \<open>done = true\<close> on exactly one invocation, the last one. The
  collaborators are taken not to fail.
\<close>

theorem predict_async_token_budget:
  assumes "response_count s = 0"
    and "stop_tokens e = []"
    and "tokenizer_Encode e input = Inr ids"
    and "llm_InitInputTokens e (start_token_id e # ids) (llm w) = Inr l0"
    and "length (start_token_id e # ids) < unat (max_num_tokens e)"
    and "unat (max_num_tokens e) - length (start_token_id e # ids) < 2 ^ 31"
    and "backend_ok e l0 (unat (max_num_tokens e) - length (start_token_id e # ids))"
    and "user w = []"
  shows "\<exists>s' w'. LlmInferenceEngine_Session_PredictAsync e record_callback input (s, w) =
            Inr (s', w') \<and>
          requests w' =
            requests w + (unat (max_num_tokens e) - length (start_token_id e # ids)) \<and>
          map snd (user w') =
            replicate (unat (max_num_tokens e) - length (start_token_id e # ids) - 1) False @
            [True]"
proof -
  let ?n = "length (start_token_id e # ids)"
  let ?s = "(reset_request input s)\<lparr>max_num_output_tokens :=
      ucast (max_num_tokens e - of_nat ?n)\<rparr>"
  let ?w = "w\<lparr>llm := l0\<rparr>"
  obtain m where m: "unat (max_num_tokens e) - ?n = Suc m"
    using assms(5) by (metis Suc_diff_Suc)
  have run: "LlmInferenceEngine_Session_PredictAsync e record_callback input (s, w) =
      next_token_function e record_callback (?s, ?w)"
    using assms(3,4)
    by (simp add: LlmInferenceEngine_Session_PredictAsync_def start_llm_function_def
        reset_request_def)
  have "sint (max_num_output_tokens ?s) - sint (response_count ?s) = int (Suc m)"
    using ceiling_of_difference [OF assms(5,6)] assms(1) m by (simp add: reset_request_def)
  moreover have "\<not> early_stop ?s" by (simp add: reset_request_def)
  moreover have "backend_ok e (llm ?w) (Suc m)" using assms(7) m by simp
  ultimately obtain s' w' where
    "next_token_function e record_callback (?s, ?w) = Inr (s', w')"
    "requests w' = requests ?w + Suc m"
    "map snd (user w') = map snd (user ?w) @ replicate m False @ [True]"
    using run_without_stop_tokens [OF assms(2), of ?s m ?w] by blast
  with run m assms(8) show ?thesis by simp
qed

lemma demo_backend_ok_3: "backend_ok (demo_engine [] 5) 0 3"
  by (simp add: demo_engine_def numeral_3_eq_3)

theorem predict_async_token_budget_witness:
  "\<exists>s' w'. LlmInferenceEngine_Session_PredictAsync (demo_engine [] 5) record_callback ''Q''
       (fresh_session, fresh_host []) = Inr (s', w') \<and>
     requests w' = 3 \<and> map snd (user w') = [False, False, True]"
proof -
  have "\<exists>s' w'. LlmInferenceEngine_Session_PredictAsync (demo_engine [] 5) record_callback ''Q''
       (fresh_session, fresh_host []) = Inr (s', w') \<and>
     requests w' = requests (fresh_host ([] :: delivery list)) +
       (unat (max_num_tokens (demo_engine [] 5)) -
        length (start_token_id (demo_engine [] 5) # [81])) \<and>
     map snd (user w') =
       replicate (unat (max_num_tokens (demo_engine [] 5)) -
         length (start_token_id (demo_engine [] 5) # [81]) - 1) False @ [True]"
    by (rule predict_async_token_budget [where ?l0.0 = 0])
      (simp_all add: demo_engine_def fresh_session_def fresh_host_def numeral_3_eq_3)
  moreover have "replicate 2 False = [False, False]" by (simp add: numeral_2_eq_2)
  ultimately show ?thesis
    by (simp add: demo_engine_def fresh_host_def)
qed

text \<open>
  C3 as stated fails: with a budget of \<open>2 ^ 31 + 2 = 2147483650\<close> tokens and the prompt
  \<open>Q\<close>, two token ids with the start token, the encoded prompt is shorter than the budget
  and the difference \<open>2 ^ 31\<close> is stored as the ceiling \<open>- 2 ^ 31\<close>. Predict returns with
  no next token requested and the callback never called: \<open>done = true\<close> is not delivered.
\<close>

theorem predict_async_budget_beyond_int:
  "length (start_token_id (demo_engine [] 2147483650) # [81]) <
     unat (max_num_tokens (demo_engine [] 2147483650)) \<and>
   unat (max_num_tokens (demo_engine [] 2147483650)) -
     length (start_token_id (demo_engine [] 2147483650) # [81]) = 2147483648 \<and>
   stop_tokens (demo_engine [] 2147483650) = [] \<and>
   tokenizer_Encode (demo_engine [] 2147483650) ''Q'' = Inr [81] \<and>
   LlmInferenceEngine_Session_PredictAsync (demo_engine [] 2147483650) record_callback ''Q''
     (fresh_session, fresh_host []) =
   Inr (\<lparr>prompt = ''Q'', max_num_output_tokens = - 2147483648, response_count = 1,
         last_10_char = [], final_output = [], early_stop = False\<rparr>,
        \<lparr>llm = 0, requests = 0, mem = \<lparr>cells = Map.empty, brk = 0\<rparr>, user = []\<rparr>)"
  by (simp add: demo_ceiling_beyond_int demo_simps)

text \<open>
  C4. For the same engine, session and backend state, the chunks that the decode loop hands
  over during asynchronous predict, concatenated in delivery order, are the accumulated
  output that synchronous predict returns. Each chunk reaches the callback as a context of
  one entry, and both kinds of buffer are filled by a copy that ends at the first NUL: when
  the pieces of the vocabulary are C strings (no NUL inside), the texts of the delivered
  entries, concatenated, are the text of the single entry of the synchronous buffer.
\<close>

theorem async_chunks_concat_sync:
  assumes "LlmInferenceEngine_Session_PredictAsync e record_callback input (s, w) = Inr (sa, wa)"
    and "user w = []"
    and "llm w0 = llm w"
  shows "\<exists>ctx ss ws chunks.
           LlmInferenceEngine_Session_PredictSync e input (s, w0) = Inr (ctx, ss, ws) \<and>
           final_output sa = concat chunks \<and> final_output ss = concat chunks \<and>
           map fst (user wa) = map (\<lambda>c. [Some (c_str c)]) chunks \<and>
           context_texts (mem ws) ctx = [Some (c_str (concat chunks))] \<and>
           (pieces_nul_free e \<longrightarrow>
              map fst (user wa) = map (\<lambda>c. [Some c]) chunks \<and>
              context_texts (mem ws) ctx = [Some (concat chunks)])"
proof -
  let ?s = "reset_request input s"
  from assms(1) obtain ids l0 where
    enc: "tokenizer_Encode e (prompt ?s) = Inr ids"
    and init: "llm_InitInputTokens e (start_token_id e # ids) (llm w) = Inr l0"
    and run: "next_token_function e record_callback
           (?s\<lparr>max_num_output_tokens :=
                ucast (max_num_tokens e - of_nat (length (start_token_id e # ids)))\<rparr>,
            w\<lparr>llm := l0\<rparr>) = Inr (sa, wa)"
    unfolding LlmInferenceEngine_Session_PredictAsync_def
    by (auto elim!: start_llm_function_Inr)
  let ?s0 = "?s\<lparr>max_num_output_tokens :=
                ucast (max_num_tokens e - of_nat (length (start_token_id e # ids)))\<rparr>"
  have init0: "llm_InitInputTokens e (start_token_id e # ids) (llm w0) = Inr l0"
    using init assms(3) by simp
  have "session_and_llm (next_token_function e (\<lambda>response_context h u. u) (?s0, w0\<lparr>llm := l0\<rparr>)) =
        session_and_llm (next_token_function e record_callback (?s0, w\<lparr>llm := l0\<rparr>))"
    by (rule ntf_callback_irrelevant) simp
  with run obtain w1 where
    "next_token_function e (\<lambda>response_context h u. u) (?s0, w0\<lparr>llm := l0\<rparr>) = Inr (sa, w1)"
    by (auto elim: session_and_llm_Inr)
  then have "LlmInferenceEngine_Session_PredictAsync e (\<lambda>response_context h u. u) input (s, w0) =
      Inr (sa, w1)"
    by (simp add: LlmInferenceEngine_Session_PredictAsync_def
        start_llm_function_ok [OF enc init0])
  from PredictSync_of_async [OF this] obtain ctx ws where
    sync: "LlmInferenceEngine_Session_PredictSync e input (s, w0) = Inr (ctx, sa, ws)"
    by blast
  from ntf_chunks [OF run] obtain chunks where
    ch: "map fst (user wa) =
         map fst (user (w\<lparr>llm := l0\<rparr>)) @ map (\<lambda>c. [Some (c_str c)]) chunks"
      "final_output sa = final_output ?s0 @ concat chunks"
      "pieces_nul_free e \<longrightarrow> nul_free (last_10_char ?s0) \<longrightarrow> (\<forall>c \<in> set chunks. nul_free c)"
    by blast
  have out: "final_output sa = concat chunks"
    using ch(2) by (simp add: reset_request_def)
  have log: "map fst (user wa) = map (\<lambda>c. [Some (c_str c)]) chunks"
    using ch(1) assms(2) by simp
  have texts: "context_texts (mem ws) ctx = [Some (c_str (concat chunks))]"
    using PredictSync_Inr(3) [OF sync] out by simp
  have whole: "map fst (user wa) = map (\<lambda>c. [Some c]) chunks \<and>
      context_texts (mem ws) ctx = [Some (concat chunks)]" if "pieces_nul_free e"
  proof -
    from ch(3) that have nf: "\<forall>c \<in> set chunks. nul_free c"
      by (simp add: reset_request_def)
    then have "nul_free (concat chunks)" by (rule nul_free_concat)
    then have "c_str (concat chunks) = concat chunks" by (rule c_str_nul_free)
    moreover have "map (\<lambda>c. [Some (c_str c)]) chunks = map (\<lambda>c. [Some c]) chunks"
      using nf by (simp add: c_str_nul_free)
    ultimately show ?thesis using log texts by simp
  qed
  show ?thesis
    by (intro exI [of _ ctx] exI [of _ sa] exI [of _ ws] exI [of _ chunks] conjI impI
        sync out log texts whole [THEN conjunct1] whole [THEN conjunct2])
qed

theorem async_chunks_concat_sync_witness:
  "\<exists>sa wa ctx ss ws.
     LlmInferenceEngine_Session_PredictAsync (demo_engine [''</s>''] 12) record_callback ''Q''
       (fresh_session, fresh_host []) = Inr (sa, wa) \<and>
     LlmInferenceEngine_Session_PredictSync (demo_engine [''</s>''] 12) ''Q''
       (fresh_session, fresh_host ()) = Inr (ctx, ss, ws) \<and>
     map fst (user wa) = map (\<lambda>c. [Some c]) ['''', '''', ''Hi''] \<and>
     context_texts (mem ws) ctx = [Some (concat ['''', '''', ''Hi''])]"
proof -
  from demo_async_run obtain sa wa where
    run: "LlmInferenceEngine_Session_PredictAsync (demo_engine [''</s>''] 12) record_callback
       ''Q'' (fresh_session, fresh_host []) = Inr (sa, wa)"
    and log: "user wa = [([Some ''''], False), ([Some ''''], False), ([Some ''Hi''], True)]"
    by blast
  have fresh: "user (fresh_host ([] :: delivery list)) = []"
    and same: "llm (fresh_host ()) = llm (fresh_host ([] :: delivery list))"
    by (simp_all add: fresh_host_def)
  from async_chunks_concat_sync [OF run fresh same]
  obtain ctx ss ws chunks where
    sync: "LlmInferenceEngine_Session_PredictSync (demo_engine [''</s>''] 12) ''Q''
        (fresh_session, fresh_host ()) = Inr (ctx, ss, ws)"
    and whole: "pieces_nul_free (demo_engine [''</s>''] 12 :: nat LlmInferenceEngineCpu_Engine) \<longrightarrow>
        map fst (user wa) = map (\<lambda>c. [Some c]) chunks \<and>
        context_texts (mem ws) ctx = [Some (concat chunks)]"
    by blast
  from whole demo_pieces_nul_free
  have ch: "map fst (user wa) = map (\<lambda>c. [Some c]) chunks"
    and texts: "context_texts (mem ws) ctx = [Some (concat chunks)]"
    by blast+
  from ch log have "chunks = ['''', '''', ''Hi'']"
    by (auto simp: map_eq_Cons_conv)
  with run sync ch texts show ?thesis by blast
qed

text \<open>
  C5. A decode step is run only while the early-stop flag is unset. With no stop sequence
  configured, a decode step stops the generation exactly when the token count has reached
  the ceiling (lines 100--102), and what it flushes is appended to the accumulated output.
  A step that does not stop flushes only what lies before the last 10 characters of the
  trailing buffer: the flushed text followed by the retained buffer is the buffer with the
  new piece appended, the buffer retains 10 characters or all it has, and exactly 10
  whenever text was flushed. The step that stops emits the whole buffer, the new piece
  included. A run with \<open>m + 1\<close> tokens left under the ceiling and a backend that answers
  returns: the callback receives \<open>m\<close> chunks marked not done and then one marked done, which
  is the whole trailing buffer as generation stops; the chunks in order spell the buffer at
  the start followed by the pieces of all \<open>m + 1\<close> tokens, so the final flush drains the
  remainder.
\<close>

theorem lookahead_window_retained:
  assumes "stop_tokens e = []"
  shows "(\<not> early_stop s \<longrightarrow>
           (\<exists>ready s'. decode_step e (id0 # rest) s = Inr (ready, s') \<and>
              early_stop s' = (response_count s = max_num_output_tokens s) \<and>
              final_output s' = final_output s @ ready \<and>
              (early_stop s' \<longrightarrow>
                 ready = last_10_char s @ token_piece e id0 \<and> last_10_char s' = ready) \<and>
              (\<not> early_stop s' \<longrightarrow>
                 ready @ last_10_char s' = last_10_char s @ token_piece e id0 \<and>
                 length (last_10_char s') =
                   min (length (last_10_char s @ token_piece e id0)) kCheckLastKChars \<and>
                 (ready \<noteq> [] \<longrightarrow> length (last_10_char s') = kCheckLastKChars)))) \<and>
         (\<not> early_stop s0 \<and>
          sint (max_num_output_tokens s0) - sint (response_count s0) = int (Suc m) \<and>
          backend_ok e (llm w) (Suc m) \<longrightarrow>
           (\<exists>s1 w1 chunks r.
              next_token_function e record_callback (s0, w) = Inr (s1, w1) \<and>
              user w1 = user w @ map (\<lambda>c. ([Some (c_str c)], False)) chunks @
                [([Some (c_str r)], True)] \<and>
              length chunks = m \<and>
              concat chunks @ r = last_10_char s0 @ concat (backend_pieces e (llm w) (Suc m)) \<and>
              r = last_10_char s1 \<and>
              final_output s1 = final_output s0 @ concat chunks @ r))"
proof (intro conjI impI)
  assume go: "\<not> early_stop s"
  obtain ready s' where
    "decode_step e (id0 # rest) s = Inr (ready, s') \<and>
     early_stop s' = (response_count s = max_num_output_tokens s) \<and>
     response_count s' = response_count s \<and>
     max_num_output_tokens s' = max_num_output_tokens s \<and>
     final_output s' = final_output s @ ready \<and>
     (early_stop s' \<longrightarrow>
        ready = last_10_char s @ token_piece e id0 \<and> last_10_char s' = ready) \<and>
     (\<not> early_stop s' \<longrightarrow>
        ready @ last_10_char s' = last_10_char s @ token_piece e id0 \<and>
        length (last_10_char s') =
          min (length (last_10_char s @ token_piece e id0)) kCheckLastKChars \<and>
        (ready \<noteq> [] \<longrightarrow> length (last_10_char s') = kCheckLastKChars))"
    using decode_step_window [OF assms go, of id0 rest] by (elim exE) (rule that)
  then show "\<exists>ready s'. decode_step e (id0 # rest) s = Inr (ready, s') \<and>
      early_stop s' = (response_count s = max_num_output_tokens s) \<and>
      final_output s' = final_output s @ ready \<and>
      (early_stop s' \<longrightarrow>
         ready = last_10_char s @ token_piece e id0 \<and> last_10_char s' = ready) \<and>
      (\<not> early_stop s' \<longrightarrow>
         ready @ last_10_char s' = last_10_char s @ token_piece e id0 \<and>
         length (last_10_char s') =
           min (length (last_10_char s @ token_piece e id0)) kCheckLastKChars \<and>
         (ready \<noteq> [] \<longrightarrow> length (last_10_char s') = kCheckLastKChars))"
    by (elim conjE) (intro exI [of _ ready] exI [of _ s'] conjI; assumption)
next
  assume "\<not> early_stop s0 \<and>
    sint (max_num_output_tokens s0) - sint (response_count s0) = int (Suc m) \<and>
    backend_ok e (llm w) (Suc m)"
  then have "\<not> early_stop s0"
    and "sint (max_num_output_tokens s0) - sint (response_count s0) = int (Suc m)"
    and "backend_ok e (llm w) (Suc m)" by simp_all
  then show "\<exists>s1 w1 chunks r.
      next_token_function e record_callback (s0, w) = Inr (s1, w1) \<and>
      user w1 = user w @ map (\<lambda>c. ([Some (c_str c)], False)) chunks @
        [([Some (c_str r)], True)] \<and>
      length chunks = m \<and>
      concat chunks @ r = last_10_char s0 @ concat (backend_pieces e (llm w) (Suc m)) \<and>
      r = last_10_char s1 \<and>
      final_output s1 = final_output s0 @ concat chunks @ r"
    by (rule run_drains_buffer [OF assms])
qed

theorem lookahead_window_retained_witness:
  "decode_step (demo_engine [] 12) [3]
     (fresh_session\<lparr>max_num_output_tokens := 10, response_count := 4,
        last_10_char := ''0123456789''\<rparr>) =
   Inr (''012'',
        fresh_session\<lparr>max_num_output_tokens := 10, response_count := 4,
          last_10_char := ''3456789ext'', final_output := ''012''\<rparr>) \<and>
   length ''3456789ext'' = kCheckLastKChars \<and>
   decode_step (demo_engine [] 12) [3]
     (fresh_session\<lparr>max_num_output_tokens := 10, response_count := 10,
        last_10_char := ''0123456789''\<rparr>) =
   Inr (''0123456789ext'',
        fresh_session\<lparr>max_num_output_tokens := 10, response_count := 10,
          last_10_char := ''0123456789ext'', final_output := ''0123456789ext'',
          early_stop := True\<rparr>) \<and>
   (\<exists>s1 w1. next_token_function (demo_engine [] 9) record_callback
       (fresh_session\<lparr>max_num_output_tokens := 7\<rparr>, (fresh_host [])\<lparr>llm := 0\<rparr>) =
       Inr (s1, w1) \<and>
     user w1 = [([Some ''''], False), ([Some ''''], False), ([Some ''''], False),
       ([Some ''''], False), ([Some ''H''], False), ([Some ''i<''], False),
       ([Some ''/s>extraHi</''], True)] \<and>
     last_10_char s1 = ''/s>extraHi</'' \<and> final_output s1 = ''Hi</s>extraHi</'') \<and>
   concat (backend_pieces (demo_engine [] 9) 0 (Suc 6)) = ''Hi</s>extraHi</''"
proof -
  let ?e = "demo_engine [] 12"
  let ?sa = "fresh_session\<lparr>max_num_output_tokens := 10, response_count := 4,
        last_10_char := ''0123456789''\<rparr>"
  let ?sb = "fresh_session\<lparr>max_num_output_tokens := 10, response_count := 10,
        last_10_char := ''0123456789''\<rparr>"
  let ?s0 = "fresh_session\<lparr>max_num_output_tokens := 7\<rparr>"
  let ?w = "(fresh_host ([] :: delivery list))\<lparr>llm := 0\<rparr>"
  have no_stop: "stop_tokens (demo_engine [] budget) = []" for budget
    by (simp add: demo_engine_def)
  have go: "\<not> early_stop ?sa" "\<not> early_stop ?sb"
    by (simp_all add: fresh_session_def)
  have run_hyps: "\<not> early_stop ?s0 \<and>
      sint (max_num_output_tokens ?s0) - sint (response_count ?s0) = int (Suc 6) \<and>
      backend_ok (demo_engine [] 9) (llm ?w) (Suc 6)"
    by (simp add: fresh_session_def demo_backend_ok)
  from lookahead_window_retained [where e = ?e and s = ?sa and ?id0.0 = 3 and rest = "[]",
      OF no_stop, THEN conjunct1] go(1)
    demo_window_step
  have window: "length ''3456789ext'' = kCheckLastKChars"
    by (simp add: fresh_session_def kCheckLastKChars_def token_piece_def demo_engine_def
        demo_piece_def)
  from lookahead_window_retained [where e = ?e and s = ?sb and ?id0.0 = 3 and rest = "[]",
      OF no_stop, THEN conjunct1] go(2)
    demo_final_step
  have final: "decode_step ?e [3] ?sb =
   Inr (''0123456789ext'',
        fresh_session\<lparr>max_num_output_tokens := 10, response_count := 10,
          last_10_char := ''0123456789ext'', final_output := ''0123456789ext'',
          early_stop := True\<rparr>)"
    by (simp add: fresh_session_def token_piece_def demo_engine_def demo_piece_def)
  from lookahead_window_retained [where e = "demo_engine [] 9" and ?s0.0 = ?s0 and m = 6 and
      w = ?w, OF no_stop, THEN conjunct2]
    run_hyps demo_window_run demo_pieces_7
  have run: "\<exists>s1 w1. next_token_function (demo_engine [] 9) record_callback (?s0, ?w) =
       Inr (s1, w1) \<and>
     user w1 = [([Some ''''], False), ([Some ''''], False), ([Some ''''], False),
       ([Some ''''], False), ([Some ''H''], False), ([Some ''i<''], False),
       ([Some ''/s>extraHi</''], True)] \<and>
     last_10_char s1 = ''/s>extraHi</'' \<and> final_output s1 = ''Hi</s>extraHi</''"
    by simp
  show ?thesis
    by (intro conjI demo_window_step window final run demo_pieces_7)
qed

text \<open>
  C6. Once the early-stop flag is set, by a stop-sequence match or by the output-token
  ceiling, the rest of the run makes no request to the backend: \<^verbatim>\<open>next_token_function\<close>
  returns with the host as it was, the backend's state included. With the stop sequence
  \<open></s>\<close> and fragments that spell \<open>Hi</s>extra\<close> (\<open>Hi\<close>, \<open></\<close>, \<open>s>\<close>, \<open>ext\<close>, \<open>ra\<close>), the
  output is \<open>Hi\<close> after three requests, and the backend stays at the fourth fragment.
\<close>

theorem early_stop_halts_requests:
  "(early_stop s \<longrightarrow>
      next_token_function e cb (s, w) =
        Inr (s\<lparr>response_count := response_count s + 1\<rparr>, w)) \<and>
   (\<exists>s' w'. LlmInferenceEngine_Session_PredictAsync (demo_engine [''</s>''] 12) record_callback
       ''Q'' (fresh_session, fresh_host []) = Inr (s', w') \<and>
     final_output s' = ''Hi'' \<and> requests w' = 3 \<and> llm w' = 3)"
proof
  show "early_stop s \<longrightarrow>
      next_token_function e cb (s, w) =
        Inr (s\<lparr>response_count := response_count s + 1\<rparr>, w)"
    by (simp add: ntf_stopped)
  show "\<exists>s' w'. LlmInferenceEngine_Session_PredictAsync (demo_engine [''</s>''] 12) record_callback
       ''Q'' (fresh_session, fresh_host []) = Inr (s', w') \<and>
     final_output s' = ''Hi'' \<and> requests w' = 3 \<and> llm w' = 3"
    using demo_async_run by blast
qed

theorem early_stop_halts_requests_witness:
  "early_stop (fresh_session\<lparr>max_num_output_tokens := 10, response_count := 3,
       early_stop := True\<rparr>) \<and>
   next_token_function (demo_engine [''</s>''] 12) record_callback
     (fresh_session\<lparr>max_num_output_tokens := 10, response_count := 3, early_stop := True\<rparr>,
      fresh_host []) =
   Inr (fresh_session\<lparr>max_num_output_tokens := 10, response_count := 4, early_stop := True\<rparr>,
        fresh_host [])"
  using early_stop_halts_requests
    [of "fresh_session\<lparr>max_num_output_tokens := 10, response_count := 3, early_stop := True\<rparr>"
      "demo_engine [''</s>''] 12" record_callback "fresh_host []", THEN conjunct1]
  by simp

text \<open>
  C7. Whatever the prompt and however many chunks were flushed on the way, the buffer that
  synchronous predict returns has entry count 1 and \<open>done = true\<close>, and its single entry is
  the accumulated output, copied as a C string: all of it when the pieces of the vocabulary
  hold no NUL. Synchronous predict returns whenever the tokenizer encodes the prompt and the
  backend accepts it and answers every request.
\<close>

theorem predict_sync_single_entry:
  "(LlmInferenceEngine_Session_PredictSync e input (s, w) = Inr (ctx, s', w') \<longrightarrow>
      LlmResponseContext.response_count ctx = 1 \<and> done_flag ctx \<and>
      context_texts (mem w') ctx = [Some (c_str (final_output s'))] \<and>
      (pieces_nul_free e \<longrightarrow> context_texts (mem w') ctx = [Some (final_output s')])) \<and>
   (tokenizer_Encode e input = Inr ids \<and>
    llm_InitInputTokens e (start_token_id e # ids) (llm w) = Inr l0 \<and> backend_reliable e \<longrightarrow>
      (\<exists>ctx s' w'. LlmInferenceEngine_Session_PredictSync e input (s, w) = Inr (ctx, s', w')))"
proof (intro conjI impI)
  assume sync: "LlmInferenceEngine_Session_PredictSync e input (s, w) = Inr (ctx, s', w')"
  show "LlmResponseContext.response_count ctx = 1" and "done_flag ctx"
    and texts: "context_texts (mem w') ctx = [Some (c_str (final_output s'))]"
    by (rule PredictSync_Inr [OF sync])+
  show "context_texts (mem w') ctx = [Some (final_output s')]" if "pieces_nul_free e"
  proof -
    from PredictSync_Inr(4) [OF sync] obtain w1 where
      "LlmInferenceEngine_Session_PredictAsync e (\<lambda>response_context h u. u) input (s, w) =
       Inr (s', w1)" by blast
    then have "nul_free (final_output s')" using that by (rule PredictAsync_nul_free)
    with texts show ?thesis by (simp add: c_str_nul_free)
  qed
next
  assume "tokenizer_Encode e input = Inr ids \<and>
    llm_InitInputTokens e (start_token_id e # ids) (llm w) = Inr l0 \<and> backend_reliable e"
  then have enc: "tokenizer_Encode e (prompt (reset_request input s)) = Inr ids"
    and init: "llm_InitInputTokens e (start_token_id e # ids) (llm w) = Inr l0"
    and rel: "backend_reliable e"
    by (simp_all add: reset_request_def)
  from ntf_total [OF rel] obtain r where
    "LlmInferenceEngine_Session_PredictAsync e (\<lambda>response_context h u. u) input (s, w) = Inr r"
    unfolding LlmInferenceEngine_Session_PredictAsync_def fst_conv snd_conv
      start_llm_function_ok [OF enc init]
    by blast
  then show "\<exists>ctx s' w'. LlmInferenceEngine_Session_PredictSync e input (s, w) = Inr (ctx, s', w')"
    by (cases r) (auto dest: PredictSync_of_async)
qed


theorem predict_sync_single_entry_witness:
  "\<exists>ctx s' w'.
     LlmInferenceEngine_Session_PredictSync (demo_engine [''</s>''] 12) ''Q''
       (fresh_session, fresh_host ()) = Inr (ctx, s', w') \<and>
     LlmResponseContext.response_count ctx = 1 \<and> done_flag ctx \<and>
     context_texts (mem w') ctx = [Some ''Hi'']"
proof -
  let ?e = "demo_engine [''</s>''] 12"
  have enc: "tokenizer_Encode ?e ''Q'' = Inr [81]"
    and init: "llm_InitInputTokens ?e (start_token_id ?e # [81])
      (llm (fresh_host ())) = Inr 0"
    by (simp_all add: demo_engine_def)
  note inst = predict_sync_single_entry [of ?e "''Q''" fresh_session "fresh_host ()" _ _ _ "[81]" 0]
  from inst [THEN conjunct2, rule_format, OF conjI [OF enc conjI [OF init demo_backend_reliable]]]
  obtain ctx s' w' where
    sync: "LlmInferenceEngine_Session_PredictSync ?e ''Q'' (fresh_session, fresh_host ()) =
      Inr (ctx, s', w')" by blast
  from demo_sync_run sync have out: "final_output s' = ''Hi''" by auto
  from predict_sync_single_entry [of ?e "''Q''" fresh_session "fresh_host ()" ctx s' w' "[81]" 0,
      THEN conjunct1, rule_format, OF sync]
  have "LlmResponseContext.response_count ctx = 1" "done_flag ctx"
    "context_texts (mem w') ctx = [Some (final_output s')]"
    using demo_pieces_nul_free [of "[''</s>'']" 12] by blast+
  with sync out show ?thesis by auto
qed

text \<open>
  C8. When the tokenizer encodes the text, \<^verbatim>\<open>SizeInTokens\<close> returns the length of the id
  sequence (a length that fits an \<^verbatim>\<open>int\<close>) and writes no error message; when encoding
  fails it returns \<open>-1\<close> and sets the error message to the text of the failed status.
\<close>

theorem size_in_tokens_result:
  "(tokenizer_Encode e input = Inr ids \<and> length ids < 2 ^ 31 \<longrightarrow>
      sint (fst (LlmInferenceEngine_Session_SizeInTokens e input)) = int (length ids) \<and>
      snd (LlmInferenceEngine_Session_SizeInTokens e input) = None) \<and>
   (tokenizer_Encode e input = Inl status \<longrightarrow>
      sint (fst (LlmInferenceEngine_Session_SizeInTokens e input)) = - 1 \<and>
      snd (LlmInferenceEngine_Session_SizeInTokens e input) = Some (c_str status))"
  by (simp add: LlmInferenceEngine_Session_SizeInTokens_def sint_ucast_of_nat)

theorem size_in_tokens_result_witness:
  "sint (fst (LlmInferenceEngine_Session_SizeInTokens (demo_engine [] 12) ''Hello'')) = 5 \<and>
   snd (LlmInferenceEngine_Session_SizeInTokens (demo_engine [] 12) ''Hello'') = None \<and>
   sint (fst (LlmInferenceEngine_Session_SizeInTokens (demo_engine [] 12) '''')) = - 1 \<and>
   snd (LlmInferenceEngine_Session_SizeInTokens (demo_engine [] 12) '''') =
     Some ''INVALID_ARGUMENT: empty input''"
proof -
  let ?e = "demo_engine [] 12 :: nat LlmInferenceEngineCpu_Engine"
  have ok: "tokenizer_Encode ?e ''Hello'' = Inr [72, 101, 108, 108, 111] \<and>
      length [72 :: int32, 101, 108, 108, 111] < 2 ^ 31"
    by (simp add: demo_engine_def)
  have bad: "tokenizer_Encode ?e '''' = Inl ''INVALID_ARGUMENT: empty input''"
    by (simp add: demo_engine_def)
  from size_in_tokens_result [of ?e "''Hello''" "[72, 101, 108, 108, 111]", THEN conjunct1,
      rule_format, OF ok]
    size_in_tokens_result [of ?e "''''" _ "''INVALID_ARGUMENT: empty input''", THEN conjunct2,
      rule_format, OF bad]
  show ?thesis by (simp add: c_str_def)
qed

text \<open>
  C9. For a response context whose entry count is the number of its allocated entries (the
  array and the entries live and distinct), \<^verbatim>\<open>CloseResponseContext\<close> succeeds; afterwards
  the array and every entry are released, every other block is as before, the entry count
  is 0 and the array reference is null.
\<close>

theorem close_response_context_releases:
  assumes "owned_buffer h ctx arr ps"
  shows "LlmInferenceEngine_CloseResponseContext ctx h =
           Some (ctx\<lparr>response_array := None, LlmResponseContext.response_count := 0\<rparr>,
                 h\<lparr>cells := (\<lambda>a. if a = arr \<or> a \<in> set ps then None else cells h a)\<rparr>)"
proof -
  from assms have arr: "response_array ctx = Some arr"
    and cell: "cells h arr = Some (Ptrs (map Some ps))"
    and n: "LlmResponseContext.response_count ctx = length ps"
    and dist: "distinct (arr # ps)"
    and live: "\<forall>p \<in> set ps. is_chars (cells h p)"
    by (simp_all add: owned_buffer_def)
  let ?h1 = "h\<lparr>cells := (\<lambda>a. if a \<in> set ps then None else cells h a)\<rparr>"
  have loop: "free_entries ctx 0 h = Some ?h1"
    using free_entries_releases [OF arr n dist _ cell, of 0] live by simp
  have "cells ?h1 arr = Some (Ptrs (map Some ps))" using dist cell by simp
  then have "free (Some arr) ?h1 = Some (?h1\<lparr>cells := (cells ?h1)(arr := None)\<rparr>)"
    by (simp add: free_def)
  moreover have "(cells ?h1)(arr := None) =
      (\<lambda>a. if a = arr \<or> a \<in> set ps then None else cells h a)"
    by auto
  ultimately have "free (response_array ctx) ?h1 =
      Some (h\<lparr>cells := (\<lambda>a. if a = arr \<or> a \<in> set ps then None else cells h a)\<rparr>)"
    by (simp add: arr)
  then show ?thesis
    by (simp add: LlmInferenceEngine_CloseResponseContext_def loop)
qed

theorem close_response_context_releases_witness:
  "\<exists>ctx s' w' h'.
     LlmInferenceEngine_Session_PredictSync (demo_engine [''</s>''] 12) ''Q''
       (fresh_session, fresh_host ()) = Inr (ctx, s', w') \<and>
     owned_buffer (mem w') ctx 6 [7] \<and>
     cells (mem w') 7 = Some (Chars ''Hi'') \<and>
     LlmInferenceEngine_CloseResponseContext ctx (mem w') =
       Some (ctx\<lparr>response_array := None, LlmResponseContext.response_count := 0\<rparr>, h') \<and>
     cells h' 6 = None \<and> cells h' 7 = None"
proof -
  from demo_sync_context obtain ctx s' w' where
    sync: "LlmInferenceEngine_Session_PredictSync (demo_engine [''</s>''] 12) ''Q''
       (fresh_session, fresh_host ()) = Inr (ctx, s', w')"
    and arr: "response_array ctx = Some 6" and entry: "cells (mem w') 7 = Some (Chars ''Hi'')"
    by blast
  from PredictSync_owned [OF sync] arr have own: "owned_buffer (mem w') ctx 6 [7]"
    by auto
  let ?h' = "(mem w')\<lparr>cells :=
      (\<lambda>x. if x = 6 \<or> x \<in> set [7] then None else cells (mem w') x)\<rparr>"
  have "LlmInferenceEngine_CloseResponseContext ctx (mem w') =
      Some (ctx\<lparr>response_array := None, LlmResponseContext.response_count := 0\<rparr>, ?h')"
    using own by (rule close_response_context_releases)
  moreover have "cells ?h' 6 = None" "cells ?h' 7 = None" by simp_all
  ultimately show ?thesis using sync own entry by blast
qed




end
